theory Spec2Isabelle
  imports Main "HOL-Library.Multiset"
begin

section \<open>Domain types\<close>

text \<open>
  The enum \<open>AssignType\<close> with its two conversions, and the \<open>Assignment\<close> struct that
  the Upcoming list keeps in its priority queue.  A \<open>QString\<close> is a \<open>string\<close>.
\<close>

datatype AssignType = HW | Quiz | Midterm | Final | Project | Essay | Other

fun toString :: "AssignType \<Rightarrow> string" where
  "toString HW = ''HW''"
| "toString Quiz = ''Quiz''"
| "toString Midterm = ''Midterm''"
| "toString Final = ''Final''"
| "toString Project = ''Project''"
| "toString Essay = ''Essay''"
| "toString Other = ''Other''"

definition parseAssignType :: "string \<Rightarrow> AssignType" where
  "parseAssignType s =
     (if s = ''HW'' then HW
      else if s = ''Quiz'' then Quiz
      else if s = ''Midterm'' then Midterm
      else if s = ''Final'' then Final
      else if s = ''Project'' then Project
      else if s = ''Essay'' then Essay
      else Other)"

text \<open>
  A \<open>QDateTime\<close> is an absolute instant, counted in milliseconds since the epoch,
  together with the time specification it is presented in and the offset from UTC (in
  seconds) that the presentation uses.  The system time zone is a parameter \<open>zone\<close>,
  the offset of local time at an instant.  Qt's \<open>toUTC\<close> and \<open>toLocalTime\<close> change
  the presentation and keep the instant; \<open>toSecsSinceEpoch\<close> divides the milliseconds
  by 1000 with C++ integer division, which truncates towards zero;
  \<open>fromSecsSinceEpoch\<close> yields the instant of that many whole seconds, presented in
  local time.  Comparison of two \<open>QDateTime\<close> values compares the instants.
\<close>

datatype TimeSpec = LocalTime | UTC

record QDateTime =
  msecs :: int
  timeSpec :: TimeSpec
  offsetFromUtc :: int

definition toUTC :: "QDateTime \<Rightarrow> QDateTime" where
  "toUTC d = \<lparr>msecs = msecs d, timeSpec = UTC, offsetFromUtc = 0\<rparr>"

definition toLocalTime :: "(int \<Rightarrow> int) \<Rightarrow> QDateTime \<Rightarrow> QDateTime" where
  "toLocalTime zone d =
     \<lparr>msecs = msecs d, timeSpec = LocalTime, offsetFromUtc = zone (msecs d)\<rparr>"

definition cdiv :: "int \<Rightarrow> int \<Rightarrow> int" where
  "cdiv a b = (if 0 \<le> a then a div b else - ((- a) div b))"

definition toSecsSinceEpoch :: "QDateTime \<Rightarrow> int" where
  "toSecsSinceEpoch d = cdiv (msecs d) 1000"

definition fromSecsSinceEpoch :: "(int \<Rightarrow> int) \<Rightarrow> int \<Rightarrow> QDateTime" where
  "fromSecsSinceEpoch zone s =
     \<lparr>msecs = s * 1000, timeSpec = LocalTime, offsetFromUtc = zone (s * 1000)\<rparr>"

record Assignment =
  a_id :: int
  courseId :: int
  atype :: AssignType
  title :: string
  dueAtUtc :: QDateTime
  topics :: "string option"
  a_notes :: "string option"

text \<open>The comparator of the priority queue: \<open>a\<close> ranks below \<open>b\<close> when it is due later.\<close>

definition DueSooner :: "Assignment \<Rightarrow> Assignment \<Rightarrow> bool" where
  "DueSooner a b = (msecs (dueAtUtc a) > msecs (dueAtUtc b))"

section \<open>The priority queue\<close>

text \<open>
  \<open>std::priority_queue<Assignment, std::vector<Assignment>, DueSooner>\<close> keeps a binary
  heap in a vector: \<open>push\<close> appends and calls \<open>std::push_heap\<close>, \<open>top\<close> is the front of
  the vector, \<open>pop\<close> calls \<open>std::pop_heap\<close> and drops the last element.  The two heap
  algorithms are written out as the GNU C++ library has them: \<open>push_heap\<close> lifts a hole
  from the last position towards the root while the parent ranks below the new value;
  \<open>pop_heap\<close> moves the root to the last position, lets the hole at the root sink to a
  leaf along the children that do not rank below their sibling, and then lifts the
  former last value from that leaf.
\<close>

function std_push_heap_loop ::
  "('a \<Rightarrow> 'a \<Rightarrow> bool) \<Rightarrow> 'a list \<Rightarrow> nat \<Rightarrow> nat \<Rightarrow> 'a \<Rightarrow> 'a list" where
  "std_push_heap_loop cmp xs holeIndex topIndex v =
     (if holeIndex > topIndex \<and> cmp (xs ! ((holeIndex - 1) div 2)) v
      then std_push_heap_loop cmp (xs[holeIndex := xs ! ((holeIndex - 1) div 2)])
             ((holeIndex - 1) div 2) topIndex v
      else xs[holeIndex := v])"
  by pat_completeness auto
termination
  by (relation "measure (\<lambda>(cmp, xs, holeIndex, topIndex, v). holeIndex)") auto

declare std_push_heap_loop.simps [simp del]

definition std_push_heap :: "('a \<Rightarrow> 'a \<Rightarrow> bool) \<Rightarrow> 'a list \<Rightarrow> 'a list" where
  "std_push_heap cmp xs =
     std_push_heap_loop cmp xs (length xs - 1) 0 (xs ! (length xs - 1))"

function std_adjust_heap_loop ::
  "('a \<Rightarrow> 'a \<Rightarrow> bool) \<Rightarrow> 'a list \<Rightarrow> nat \<Rightarrow> nat \<Rightarrow> 'a list \<times> nat" where
  "std_adjust_heap_loop cmp xs secondChild len =
     (if secondChild < (len - 1) div 2
      then (if cmp (xs ! (2 * (secondChild + 1))) (xs ! (2 * (secondChild + 1) - 1))
            then std_adjust_heap_loop cmp
                   (xs[secondChild := xs ! (2 * (secondChild + 1) - 1)])
                   (2 * (secondChild + 1) - 1) len
            else std_adjust_heap_loop cmp
                   (xs[secondChild := xs ! (2 * (secondChild + 1))])
                   (2 * (secondChild + 1)) len)
      else (xs, secondChild))"
  by pat_completeness auto
termination
  by (relation "measure (\<lambda>(cmp, xs, secondChild, len). len - secondChild)") auto

declare std_adjust_heap_loop.simps [simp del]

definition std_adjust_heap ::
  "('a \<Rightarrow> 'a \<Rightarrow> bool) \<Rightarrow> 'a list \<Rightarrow> nat \<Rightarrow> nat \<Rightarrow> 'a \<Rightarrow> 'a list" where
  "std_adjust_heap cmp xs holeIndex len v =
     (case std_adjust_heap_loop cmp xs holeIndex len of
        (xs1, secondChild) \<Rightarrow>
          if len mod 2 = 0 \<and> 2 \<le> len \<and> secondChild = (len - 2) div 2
          then std_push_heap_loop cmp
                 (xs1[secondChild := xs1 ! (2 * (secondChild + 1) - 1)])
                 (2 * (secondChild + 1) - 1) holeIndex v
          else std_push_heap_loop cmp xs1 secondChild holeIndex v)"

definition std_pop_heap :: "('a \<Rightarrow> 'a \<Rightarrow> bool) \<Rightarrow> 'a list \<Rightarrow> 'a list" where
  "std_pop_heap cmp xs =
     (if length xs > 1
      then std_adjust_heap cmp (xs[length xs - 1 := xs ! 0]) 0 (length xs - 1)
             (xs ! (length xs - 1))
      else xs)"

definition pq_push :: "('a \<Rightarrow> 'a \<Rightarrow> bool) \<Rightarrow> 'a list \<Rightarrow> 'a \<Rightarrow> 'a list" where
  "pq_push cmp c x = std_push_heap cmp (c @ [x])"

definition pq_top :: "'a list \<Rightarrow> 'a" where
  "pq_top c = c ! 0"

definition pq_pop :: "('a \<Rightarrow> 'a \<Rightarrow> bool) \<Rightarrow> 'a list \<Rightarrow> 'a list" where
  "pq_pop cmp c = butlast (std_pop_heap cmp c)"

section \<open>The SQLite store\<close>

text \<open>
  The four tables that \<open>runMigrations\<close> creates.  A table is the list of its rows in
  rowid order; a nullable column is an \<open>option\<close>.  Every table has an
  \<open>AUTOINCREMENT\<close> key, whose last value SQLite keeps per table.
\<close>

type_synonym QByteArray = string

record user_row =
  u_id :: int
  username :: string
  password_hash :: QByteArray
  created_at :: int

record semester_row =
  s_id :: int
  s_term :: string
  s_year :: int

record course_row =
  c_id :: int
  c_user_id :: int
  c_semester_id :: int
  c_code :: string
  c_name :: string
  c_color_hex :: string

record assignment_row =
  r_id :: int
  r_course_id :: int
  r_type :: string
  r_title :: string
  r_due_at_utc :: int
  r_topics :: "string option"
  r_notes :: "string option"

record store =
  users :: "user_row list"
  semesters :: "semester_row list"
  courses :: "course_row list"
  assignments :: "assignment_row list"
  seq_users :: int
  seq_semesters :: int
  seq_courses :: int
  seq_assignments :: int

definition runMigrations :: store where
  "runMigrations =
     \<lparr>users = [], semesters = [], courses = [], assignments = [],
      seq_users = 0, seq_semesters = 0, seq_courses = 0, seq_assignments = 0\<rparr>"

text \<open>
  The application works through one database connection.  \<open>db\<close> is the content the
  connection sees, \<open>saved\<close> the content at the start of the open transaction (if any),
  to which \<open>rollback\<close> returns.  The source tests the result of \<open>exec()\<close> in most
  places, so a statement can fail for reasons outside the tables (an I/O error, a
  locked file): \<open>io\<close> lists, for the coming calls of \<open>exec()\<close>, whether the engine
  carries the statement out; after the end of the list every statement is carried out.
  A statement that fails changes nothing.  The results of \<open>transaction()\<close>,
  \<open>commit()\<close> and \<open>rollback()\<close> are never looked at by the source, and they are
  taken to succeed.
\<close>

record connection =
  db :: store
  saved :: "store option"
  io :: "bool list"

definition engine :: "connection \<Rightarrow> bool \<times> connection" where
  "engine c = (case io c of [] \<Rightarrow> (True, c) | b # bs \<Rightarrow> (b, c\<lparr>io := bs\<rparr>))"

definition transaction :: "connection \<Rightarrow> connection" where
  "transaction c = (case saved c of None \<Rightarrow> c\<lparr>saved := Some (db c)\<rparr> | Some s \<Rightarrow> c)"

definition commit :: "connection \<Rightarrow> connection" where
  "commit c = c\<lparr>saved := None\<rparr>"

definition rollback :: "connection \<Rightarrow> connection" where
  "rollback c = (case saved c of None \<Rightarrow> c | Some s \<Rightarrow> c\<lparr>db := s, saved := None\<rparr>)"

text \<open>\<open>AUTOINCREMENT\<close>: one more than the largest key the table has or ever had.\<close>

definition next_id :: "int \<Rightarrow> int list \<Rightarrow> int" where
  "next_id seq ids = fold max ids seq + 1"

text \<open>What a handler leaves behind for the user: a message box, whether the dialog was
  accepted, and the identifier field of the dialog (initially \<open>-1\<close>).\<close>

datatype message_box = Warning string string | Information string string

record outcome =
  message :: "message_box option"
  accepted :: bool
  ident :: int

section \<open>AuthDialog\<close>

text \<open>\<open>SELECT id, password_hash FROM users WHERE username = ?\<close>\<close>

definition exec_select_user ::
  "connection \<Rightarrow> string \<Rightarrow> (int \<times> QByteArray) list option \<times> connection" where
  "exec_select_user c uname =
     (case engine c of
        (ok, c') \<Rightarrow>
          if ok
          then (Some (map (\<lambda>u. (u_id u, password_hash u))
                        (filter (\<lambda>u. username u = uname) (users (db c')))), c')
          else (None, c'))"

text \<open>
  \<open>AuthDialog::onLogin\<close>.  \<open>hashPassword\<close> is SHA-256 of the UTF-8 bytes of the
  password (\<open>QCryptographicHash\<close>); it is a parameter here.
\<close>

definition onLogin ::
  "(string \<Rightarrow> QByteArray) \<Rightarrow> connection \<Rightarrow> string \<Rightarrow> string \<Rightarrow> outcome \<times> connection" where
  "onLogin hashPassword c user pass =
     (case exec_select_user c user of
        (Some ((uid, stored) # rest), c') \<Rightarrow>
          if stored \<noteq> hashPassword pass
          then (\<lparr>message = Some (Warning ''Login failed'' ''Incorrect password.''),
                 accepted = False, ident = - 1\<rparr>, c')
          else (\<lparr>message = None, accepted = True, ident = uid\<rparr>, c')
      | (r, c') \<Rightarrow>
          (\<lparr>message = Some (Warning ''Login failed'' ''User not found.''),
            accepted = False, ident = - 1\<rparr>, c'))"

text \<open>
  \<open>INSERT INTO users(username, password_hash, created_at) VALUES(?,?,?)\<close>.
  The column \<open>username\<close> is \<open>UNIQUE\<close>: the statement fails when a row has the name.
\<close>

definition exec_insert_user ::
  "connection \<Rightarrow> string \<Rightarrow> QByteArray \<Rightarrow> int \<Rightarrow> bool \<times> connection" where
  "exec_insert_user c uname hash now =
     (case engine c of
        (ok, c') \<Rightarrow>
          if ok \<and> uname \<notin> set (map username (users (db c')))
          then (True,
                c'\<lparr>db := (db c')
                  \<lparr>users := users (db c') @
                     [\<lparr>u_id = next_id (seq_users (db c')) (map u_id (users (db c'))),
                       username = uname, password_hash = hash, created_at = now\<rparr>],
                   seq_users := next_id (seq_users (db c')) (map u_id (users (db c')))\<rparr>\<rparr>)
          else (False, c'))"

text \<open>\<open>AuthDialog::onRegister\<close>; \<open>now\<close> is \<open>QDateTime::currentSecsSinceEpoch()\<close>.\<close>

definition onRegister ::
  "(string \<Rightarrow> QByteArray) \<Rightarrow> int \<Rightarrow> connection \<Rightarrow> string \<Rightarrow> string \<Rightarrow> outcome \<times> connection" where
  "onRegister hashPassword now c user pass =
     (case exec_insert_user (transaction c) user (hashPassword pass) now of
        (ok, c') \<Rightarrow>
          if \<not> ok
          then (\<lparr>message = Some (Warning ''Register failed'' ''Username exists?''),
                 accepted = False, ident = - 1\<rparr>, rollback c')
          else (\<lparr>message = Some (Information ''Registered'' ''User created. Please login.''),
                 accepted = False, ident = - 1\<rparr>, commit c'))"

text \<open>
  Closed examples need a concrete digest.  \<open>demo_digest\<close> stands in for SHA-256 there;
  the general theorems hold for every digest function.
\<close>

definition demo_digest :: "string \<Rightarrow> QByteArray" where
  "demo_digest pw = rev pw"

definition login_store :: connection where
  "login_store =
     \<lparr>db = runMigrations
        \<lparr>users := [\<lparr>u_id = 1, username = ''alice'',
                     password_hash = demo_digest ''secret'', created_at = 0\<rparr>],
         seq_users := 1\<rparr>,
      saved = None, io = []\<rparr>"

section \<open>SemesterPicker\<close>

text \<open>\<open>SELECT id FROM semesters WHERE term=? AND year=?\<close>\<close>

definition exec_select_semester ::
  "connection \<Rightarrow> string \<Rightarrow> int \<Rightarrow> int list option \<times> connection" where
  "exec_select_semester c trm yr =
     (case engine c of
        (ok, c') \<Rightarrow>
          if ok
          then (Some (map s_id (filter (\<lambda>s. s_term s = trm \<and> s_year s = yr)
                                  (semesters (db c')))), c')
          else (None, c'))"

text \<open>
  \<open>INSERT INTO semesters(term, year) VALUES(?,?)\<close>, with the new key
  (\<open>lastInsertId\<close>) when it succeeds.  The table checks
  \<open>term IN ('Fall','Spring')\<close>; it declares no uniqueness of \<open>(term, year)\<close>.
\<close>

definition exec_insert_semester ::
  "connection \<Rightarrow> string \<Rightarrow> int \<Rightarrow> int option \<times> connection" where
  "exec_insert_semester c trm yr =
     (case engine c of
        (ok, c') \<Rightarrow>
          if ok \<and> (trm = ''Fall'' \<or> trm = ''Spring'')
          then (Some (next_id (seq_semesters (db c')) (map s_id (semesters (db c')))),
                c'\<lparr>db := (db c')
                  \<lparr>semesters := semesters (db c') @
                     [\<lparr>s_id = next_id (seq_semesters (db c')) (map s_id (semesters (db c'))),
                       s_term = trm, s_year = yr\<rparr>],
                   seq_semesters :=
                     next_id (seq_semesters (db c')) (map s_id (semesters (db c')))\<rparr>\<rparr>)
          else (None, c'))"

text \<open>\<open>SemesterPicker::onOk\<close>: the dialog is accepted on every path.\<close>

definition onOk :: "connection \<Rightarrow> string \<Rightarrow> int \<Rightarrow> outcome \<times> connection" where
  "onOk c trm yr =
     (case exec_select_semester c trm yr of
        (Some (sid # rest), c1) \<Rightarrow> (\<lparr>message = None, accepted = True, ident = sid\<rparr>, c1)
      | (r, c1) \<Rightarrow>
          (case exec_insert_semester (transaction c1) trm yr of
             (Some sid, c2) \<Rightarrow> (\<lparr>message = None, accepted = True, ident = sid\<rparr>, commit c2)
           | (None, c2) \<Rightarrow> (\<lparr>message = None, accepted = True, ident = - 1\<rparr>, rollback c2)))"

section \<open>CourseDialog\<close>

text \<open>
  \<open>INSERT INTO courses(user_id, semester_id, code, name, color_hex) VALUES(?,?,?,?,?)\<close>.
  The foreign keys of the table are declared only: SQLite enforces them after
  \<open>PRAGMA foreign_keys = ON\<close>, which the program never issues.
\<close>

definition exec_insert_course ::
  "connection \<Rightarrow> int \<Rightarrow> int \<Rightarrow> string \<Rightarrow> string \<Rightarrow> string \<Rightarrow> int option \<times> connection" where
  "exec_insert_course c uid sid cd nm col =
     (case engine c of
        (ok, c') \<Rightarrow>
          if ok
          then (Some (next_id (seq_courses (db c')) (map c_id (courses (db c')))),
                c'\<lparr>db := (db c')
                  \<lparr>courses := courses (db c') @
                     [\<lparr>c_id = next_id (seq_courses (db c')) (map c_id (courses (db c'))),
                       c_user_id = uid, c_semester_id = sid,
                       c_code = cd, c_name = nm, c_color_hex = col\<rparr>],
                   seq_courses := next_id (seq_courses (db c')) (map c_id (courses (db c')))\<rparr>\<rparr>)
          else (None, c'))"

text \<open>\<open>UPDATE courses SET code=?, name=?, color_hex=? WHERE id=?\<close>: a statement that
  matches no row succeeds.\<close>

definition exec_update_course ::
  "connection \<Rightarrow> string \<Rightarrow> string \<Rightarrow> string \<Rightarrow> int \<Rightarrow> bool \<times> connection" where
  "exec_update_course c cd nm col cid =
     (case engine c of
        (ok, c') \<Rightarrow>
          if ok
          then (True,
                c'\<lparr>db := (db c')
                  \<lparr>courses :=
                     map (\<lambda>r. if c_id r = cid
                               then r\<lparr>c_code := cd, c_name := nm, c_color_hex := col\<rparr>
                               else r)
                       (courses (db c'))\<rparr>\<rparr>)
          else (False, c'))"

text \<open>\<open>CourseDialog::onSave\<close>, with the fields of the dialog as arguments.\<close>

definition CourseDialog_onSave ::
  "connection \<Rightarrow> int \<Rightarrow> int \<Rightarrow> int \<Rightarrow> string \<Rightarrow> string \<Rightarrow> string \<Rightarrow> outcome \<times> connection" where
  "CourseDialog_onSave c userId semId editCourseId code_text name_text color_text =
     (if editCourseId < 0
      then (case exec_insert_course (transaction c) userId semId code_text name_text
                   (if color_text = [] then ''#4F46E5'' else color_text) of
              (Some cid, c') \<Rightarrow> (\<lparr>message = None, accepted = True, ident = cid\<rparr>, commit c')
            | (None, c') \<Rightarrow>
                (\<lparr>message = Some (Warning ''Error'' ''Could not save course.''),
                  accepted = False, ident = - 1\<rparr>, rollback c'))
      else (case exec_update_course (transaction c) code_text name_text
                   (if color_text = [] then ''#4F46E5'' else color_text) editCourseId of
              (ok, c') \<Rightarrow>
                if ok
                then (\<lparr>message = None, accepted = True, ident = editCourseId\<rparr>, commit c')
                else (\<lparr>message = Some (Warning ''Error'' ''Could not update course.''),
                       accepted = False, ident = - 1\<rparr>, rollback c')))"

section \<open>AssignmentDialog\<close>

text \<open>\<open>INSERT INTO assignments(course_id, type, title, due_at_utc, topics, notes)\<close>\<close>

definition exec_insert_assignment ::
  "connection \<Rightarrow> int \<Rightarrow> string \<Rightarrow> string \<Rightarrow> int \<Rightarrow> string option \<Rightarrow> string option
     \<Rightarrow> int option \<times> connection" where
  "exec_insert_assignment c cid ty ti due tp nt =
     (case engine c of
        (ok, c') \<Rightarrow>
          if ok
          then (Some (next_id (seq_assignments (db c')) (map r_id (assignments (db c')))),
                c'\<lparr>db := (db c')
                  \<lparr>assignments := assignments (db c') @
                     [\<lparr>r_id = next_id (seq_assignments (db c')) (map r_id (assignments (db c'))),
                       r_course_id = cid, r_type = ty, r_title = ti, r_due_at_utc = due,
                       r_topics = tp, r_notes = nt\<rparr>],
                   seq_assignments :=
                     next_id (seq_assignments (db c')) (map r_id (assignments (db c')))\<rparr>\<rparr>)
          else (None, c'))"

text \<open>\<open>UPDATE assignments SET type=?, title=?, due_at_utc=?, topics=?, notes=? WHERE id=?\<close>\<close>

definition exec_update_assignment ::
  "connection \<Rightarrow> string \<Rightarrow> string \<Rightarrow> int \<Rightarrow> string option \<Rightarrow> string option \<Rightarrow> int
     \<Rightarrow> bool \<times> connection" where
  "exec_update_assignment c ty ti due tp nt aid =
     (case engine c of
        (ok, c') \<Rightarrow>
          if ok
          then (True,
                c'\<lparr>db := (db c')
                  \<lparr>assignments :=
                     map (\<lambda>r. if r_id r = aid
                               then r\<lparr>r_type := ty, r_title := ti, r_due_at_utc := due,
                                     r_topics := tp, r_notes := nt\<rparr>
                               else r)
                       (assignments (db c'))\<rparr>\<rparr>)
          else (False, c'))"

text \<open>
  \<open>AssignmentDialog::onSave\<close>.  \<open>dueDate\<close> is the value of the \<open>QDateTimeEdit\<close>; an
  empty text is bound as a null \<open>QString\<close>, which the driver stores as \<open>NULL\<close>.
\<close>

definition AssignmentDialog_onSave ::
  "connection \<Rightarrow> int \<Rightarrow> int \<Rightarrow> string \<Rightarrow> string \<Rightarrow> QDateTime \<Rightarrow> string \<Rightarrow> string
     \<Rightarrow> outcome \<times> connection" where
  "AssignmentDialog_onSave c course editAssignmentId type_text title_text dueDate
       topics_text notes_text =
     (if editAssignmentId < 0
      then (case exec_insert_assignment (transaction c) course type_text title_text
                   (toSecsSinceEpoch (toUTC dueDate))
                   (if topics_text = [] then None else Some topics_text)
                   (if notes_text = [] then None else Some notes_text) of
              (Some aid, c') \<Rightarrow> (\<lparr>message = None, accepted = True, ident = aid\<rparr>, commit c')
            | (None, c') \<Rightarrow>
                (\<lparr>message = Some (Warning ''Error'' ''Could not save assignment.''),
                  accepted = False, ident = - 1\<rparr>, rollback c'))
      else (case exec_update_assignment (transaction c) type_text title_text
                   (toSecsSinceEpoch (toUTC dueDate))
                   (if topics_text = [] then None else Some topics_text)
                   (if notes_text = [] then None else Some notes_text) editAssignmentId of
              (ok, c') \<Rightarrow>
                if ok
                then (\<lparr>message = None, accepted = True, ident = editAssignmentId\<rparr>, commit c')
                else (\<lparr>message = Some (Warning ''Error'' ''Could not update assignment.''),
                       accepted = False, ident = - 1\<rparr>, rollback c')))"

section \<open>MainWindow\<close>

text \<open>\<open>DELETE FROM assignments WHERE course_id=?\<close> and \<open>DELETE FROM courses WHERE id=?\<close>\<close>

definition exec_delete_assignments_of ::
  "connection \<Rightarrow> int \<Rightarrow> bool \<times> connection" where
  "exec_delete_assignments_of c cid =
     (case engine c of
        (ok, c') \<Rightarrow>
          if ok
          then (True,
                c'\<lparr>db := (db c')
                  \<lparr>assignments :=
                     filter (\<lambda>r. r_course_id r \<noteq> cid) (assignments (db c'))\<rparr>\<rparr>)
          else (False, c'))"

definition exec_delete_course :: "connection \<Rightarrow> int \<Rightarrow> bool \<times> connection" where
  "exec_delete_course c cid =
     (case engine c of
        (ok, c') \<Rightarrow>
          if ok
          then (True,
                c'\<lparr>db := (db c')
                  \<lparr>courses := filter (\<lambda>r. c_id r \<noteq> cid) (courses (db c'))\<rparr>\<rparr>)
          else (False, c'))"

text \<open>
  \<open>MainWindow::deleteCourse\<close>.  \<open>item\<close> is the course id of the selected list item,
  if one is selected, and \<open>yes\<close> the answer to the confirmation box.  The results of
  the two \<open>exec()\<close> calls are dropped, and the transaction is committed in any case.
  The two refreshes that follow only read.
\<close>

definition deleteCourse ::
  "connection \<Rightarrow> int option \<Rightarrow> bool \<Rightarrow> message_box option \<times> connection" where
  "deleteCourse c item yes =
     (case item of
        None \<Rightarrow> (Some (Information ''Delete course'' ''Select a course.''), c)
      | Some course \<Rightarrow>
          if yes
          then (None,
                commit (snd (exec_delete_course
                               (snd (exec_delete_assignments_of (transaction c) course))
                               course)))
          else (None, c))"

text \<open>
  The query of \<open>reloadUpcoming\<close>: the assignments joined with their courses of the
  semester and the user, ordered by \<open>due_at_utc\<close>.  Rows with equal \<open>due_at_utc\<close> are
  delivered in rowid order here; SQL leaves their order open.
\<close>

definition exec_select_upcoming ::
  "connection \<Rightarrow> int \<Rightarrow> int \<Rightarrow> assignment_row list option \<times> connection" where
  "exec_select_upcoming c semesterId userId =
     (case engine c of
        (ok, c') \<Rightarrow>
          if ok
          then (Some (sort_key r_due_at_utc
                        (concat (map (\<lambda>a. map (\<lambda>cr. a)
                                            (filter (\<lambda>cr. r_course_id a = c_id cr
                                                        \<and> c_semester_id cr = semesterId
                                                        \<and> c_user_id cr = userId)
                                               (courses (db c'))))
                                   (assignments (db c'))))), c')
          else (None, c'))"

text \<open>The body of the reading loop: one row becomes one \<open>Assignment\<close>.\<close>

definition readAssignment :: "(int \<Rightarrow> int) \<Rightarrow> assignment_row \<Rightarrow> Assignment" where
  "readAssignment zone r =
     \<lparr>a_id = r_id r, courseId = r_course_id r, atype = parseAssignType (r_type r),
      title = r_title r, dueAtUtc = toUTC (fromSecsSinceEpoch zone (r_due_at_utc r)),
      topics = r_topics r, a_notes = None\<rparr>"

text \<open>
  \<open>SELECT code FROM courses WHERE id=?\<close>, then \<open>qc.exec(); qc.next();
  qc.value(0).toString()\<close> with no result tested: without a row the value is invalid
  and its string is empty.
\<close>

definition exec_select_code :: "connection \<Rightarrow> int \<Rightarrow> string list option \<times> connection" where
  "exec_select_code c cid =
     (case engine c of
        (ok, c') \<Rightarrow>
          if ok
          then (Some (map c_code (filter (\<lambda>r. c_id r = cid) (courses (db c')))), c')
          else (None, c'))"

definition value0_toString :: "string list option \<Rightarrow> string" where
  "value0_toString r = (case r of Some (x # rest) \<Rightarrow> x | _ \<Rightarrow> [])"

text \<open>
  The second loop of \<open>reloadUpcoming\<close>: while the queue is not empty and fewer than 10
  items are shown, take the top, pop, look the course code up and add the item.  An item
  is the assignment with the code; \<open>upcoming_text\<close> is the text shown for it, with
  \<open>shortFormat\<close> for the short format of the locale.
\<close>

function show_upcoming ::
  "connection \<Rightarrow> Assignment list \<Rightarrow> nat \<Rightarrow> (Assignment \<times> string) list \<times> connection" where
  "show_upcoming c pq shown =
     (if pq \<noteq> [] \<and> shown < 10
      then ((pq_top pq,
             value0_toString (fst (exec_select_code c (courseId (pq_top pq)))))
              # fst (show_upcoming (snd (exec_select_code c (courseId (pq_top pq))))
                       (pq_pop DueSooner pq) (shown + 1)),
            snd (show_upcoming (snd (exec_select_code c (courseId (pq_top pq))))
                   (pq_pop DueSooner pq) (shown + 1)))
      else ([], c))"
  by pat_completeness auto
termination
  by (relation "measure (\<lambda>(c, pq, shown). 10 - shown)") auto

declare show_upcoming.simps [simp del]

definition upcoming_text ::
  "(int \<Rightarrow> int) \<Rightarrow> (QDateTime \<Rightarrow> string) \<Rightarrow> Assignment \<times> string \<Rightarrow> string" where
  "upcoming_text zone shortFormat item =
     ''['' @ toString (atype (fst item)) @ ''] '' @ snd item
       @ [CHR '' '', CHR 0xE2, CHR 0x80, CHR 0x94, CHR '' ''] @ title (fst item)
       @ '' ('' @ shortFormat (toLocalTime zone (dueAtUtc (fst item))) @ '')''
       @ (case topics (fst item) of
            Some t \<Rightarrow> if t \<noteq> [] then [CHR '' '', CHR '' '', CHR 0xE2, CHR 0x80, CHR 0xA2,
                                         CHR '' '', CHR '' ''] @ t else []
          | None \<Rightarrow> [])"

text \<open>\<open>MainWindow::reloadUpcoming\<close> for the user and semester of the window.\<close>

definition reloadUpcoming ::
  "(int \<Rightarrow> int) \<Rightarrow> connection \<Rightarrow> int \<Rightarrow> int
     \<Rightarrow> (Assignment \<times> string) list \<times> connection" where
  "reloadUpcoming zone c userId semesterId =
     (if semesterId < 0 then ([], c)
      else (case exec_select_upcoming c semesterId userId of
              (r, c1) \<Rightarrow>
                show_upcoming c1
                  (case r of
                     None \<Rightarrow> []
                   | Some rows \<Rightarrow>
                       fold (\<lambda>row pq. pq_push DueSooner pq (readAssignment zone row)) rows [])
                  0))"

text \<open>
  A connection is \<open>healthy\<close> when the engine carries out every statement to come.
  \<open>fresh_conn\<close> is the connection right after \<open>runMigrations\<close> on a new file;
  \<open>course_store\<close> holds one semester, one course and one assignment.
\<close>

definition healthy :: "connection \<Rightarrow> bool" where
  "healthy c = list_all (\<lambda>b. b) (io c)"

definition fresh_conn :: connection where
  "fresh_conn = \<lparr>db = runMigrations, saved = None, io = []\<rparr>"

definition course_store :: connection where
  "course_store =
     \<lparr>db = runMigrations
        \<lparr>semesters := [\<lparr>s_id = 1, s_term = ''Fall'', s_year = 2024\<rparr>],
         courses := [\<lparr>c_id = 1, c_user_id = 1, c_semester_id = 1, c_code = ''CS101'',
                      c_name = ''Intro'', c_color_hex = ''#FF0000''\<rparr>],
         assignments := [\<lparr>r_id = 1, r_course_id = 1, r_type = ''HW'', r_title = ''Sheet 1'',
                          r_due_at_utc = 1727776800, r_topics = None, r_notes = None\<rparr>],
         seq_semesters := 1, seq_courses := 1, seq_assignments := 1\<rparr>,
      saved = None, io = []\<rparr>"

text \<open>
  The key of a semester row and the rows of a key.  \<open>flaky_conn\<close> is a new store on
  which the engine fails the third statement; on \<open>cascade_conn\<close> it fails the first
  and carries out the second.  \<open>zone_cet\<close> and \<open>zone_est\<close> are two time zones of
  fixed offset.
\<close>

definition semester_key :: "semester_row \<Rightarrow> string \<times> int" where
  "semester_key s = (s_term s, s_year s)"

definition semester_rows :: "store \<Rightarrow> string \<Rightarrow> int \<Rightarrow> semester_row list" where
  "semester_rows d trm yr = filter (\<lambda>s. s_term s = trm \<and> s_year s = yr) (semesters d)"

definition flaky_conn :: connection where
  "flaky_conn = \<lparr>db = runMigrations, saved = None, io = [True, True, False]\<rparr>"

definition cascade_conn :: connection where
  "cascade_conn = course_store\<lparr>io := [False, True]\<rparr>"

definition zone_cet :: "int \<Rightarrow> int" where
  "zone_cet t = 3600"

definition zone_est :: "int \<Rightarrow> int" where
  "zone_est t = - 18000"

section \<open>Notions for the proofs\<close>

text \<open>
  \<open>heap_upto key xs\<close>: the vector is a heap, no element has a smaller key than its
  parent.  \<open>hole_up\<close> and \<open>hole_down\<close> are the invariants of the two heap loops: the
  vector is a heap but for the hole, whose slot holds a stale value; in \<open>hole_up\<close> the
  value \<open>v\<close> in flight is already compared with the children of the hole.
\<close>

definition heap_upto :: "('a \<Rightarrow> int) \<Rightarrow> 'a list \<Rightarrow> bool" where
  "heap_upto key xs = (\<forall>i<length xs. 0 < i \<longrightarrow> key (xs ! ((i - 1) div 2)) \<le> key (xs ! i))"

definition hole_up :: "('a \<Rightarrow> int) \<Rightarrow> 'a list \<Rightarrow> nat \<Rightarrow> 'a \<Rightarrow> bool" where
  "hole_up key xs h v =
     (h < length xs \<and>
      (\<forall>i<length xs. 0 < i \<longrightarrow> i \<noteq> h \<longrightarrow>
           key (xs[h := v] ! ((i - 1) div 2)) \<le> key (xs[h := v] ! i)) \<and>
      (\<forall>i<length xs. 0 < i \<longrightarrow> (i - 1) div 2 = h \<longrightarrow> 0 < h \<longrightarrow>
           key (xs ! ((h - 1) div 2)) \<le> key (xs ! i)))"

definition hole_down :: "('a \<Rightarrow> int) \<Rightarrow> 'a list \<Rightarrow> nat \<Rightarrow> bool" where
  "hole_down key xs h =
     (h < length xs \<and>
      (\<forall>i<length xs. 0 < i \<longrightarrow> i \<noteq> h \<longrightarrow> (i - 1) div 2 \<noteq> h \<longrightarrow>
           key (xs ! ((i - 1) div 2)) \<le> key (xs ! i)) \<and>
      (\<forall>i<length xs. 0 < i \<longrightarrow> (i - 1) div 2 = h \<longrightarrow> 0 < h \<longrightarrow>
           key (xs ! ((h - 1) div 2)) \<le> key (xs ! i)))"

text \<open>
  \<open>due_key\<close> is the instant that \<open>DueSooner\<close> compares.  \<open>pops k pq\<close> is the sequence
  of tops that \<open>k\<close> rounds of \<open>top\<close> and \<open>pop\<close> take from the queue, and
  \<open>rankUpcoming c as\<close> the items that the two loops of \<open>reloadUpcoming\<close> show when the
  query delivers the assignments \<open>as\<close> in this order.
\<close>

definition due_key :: "Assignment \<Rightarrow> int" where
  "due_key a = msecs (dueAtUtc a)"

fun pops :: "nat \<Rightarrow> Assignment list \<Rightarrow> Assignment list" where
  "pops 0 pq = []"
| "pops (Suc k) pq = (if pq = [] then [] else pq_top pq # pops k (pq_pop DueSooner pq))"

definition rankUpcoming :: "connection \<Rightarrow> Assignment list \<Rightarrow> (Assignment \<times> string) list" where
  "rankUpcoming c as = fst (show_upcoming c (fold (\<lambda>a pq. pq_push DueSooner pq a) as []) 0)"

text \<open>
  \<open>upcoming_store\<close> holds one course with three assignments, and a fourth assignment
  whose course id 99 belongs to no course.  \<open>tie_a\<close> and \<open>tie_b\<close> are two
  assignments due at the same instant, \<open>first_a\<close> is due before them, and \<open>orphan\<close>
  is the fourth assignment as the reading loop would build it.
\<close>

definition upcoming_store :: connection where
  "upcoming_store =
     \<lparr>db = runMigrations
        \<lparr>semesters := [\<lparr>s_id = 1, s_term = ''Fall'', s_year = 2024\<rparr>],
         courses := [\<lparr>c_id = 1, c_user_id = 1, c_semester_id = 1, c_code = ''CS101'',
                      c_name = ''Intro'', c_color_hex = ''#4F46E5''\<rparr>],
         assignments :=
           [\<lparr>r_id = 1, r_course_id = 1, r_type = ''HW'', r_title = ''Sheet 1'',
             r_due_at_utc = 1727776800, r_topics = None, r_notes = None\<rparr>,
            \<lparr>r_id = 2, r_course_id = 1, r_type = ''Quiz'', r_title = ''Quiz 1'',
             r_due_at_utc = 1726441200, r_topics = Some ''sets'', r_notes = None\<rparr>,
            \<lparr>r_id = 3, r_course_id = 1, r_type = ''Essay'', r_title = ''Report'',
             r_due_at_utc = 1730419200, r_topics = None, r_notes = None\<rparr>,
            \<lparr>r_id = 4, r_course_id = 99, r_type = ''HW'', r_title = ''Orphan'',
             r_due_at_utc = 1726000000, r_topics = None, r_notes = None\<rparr>],
         seq_semesters := 1, seq_courses := 1, seq_assignments := 4\<rparr>,
      saved = None, io = []\<rparr>"

definition tie_a :: Assignment where
  "tie_a = \<lparr>a_id = 1, courseId = 1, atype = HW, title = ''Sheet 1'',
            dueAtUtc = \<lparr>msecs = 1727776800000, timeSpec = UTC, offsetFromUtc = 0\<rparr>,
            topics = None, a_notes = None\<rparr>"

definition tie_b :: Assignment where
  "tie_b = \<lparr>a_id = 2, courseId = 1, atype = Quiz, title = ''Quiz 1'',
            dueAtUtc = \<lparr>msecs = 1727776800000, timeSpec = UTC, offsetFromUtc = 0\<rparr>,
            topics = None, a_notes = None\<rparr>"

definition orphan :: Assignment where
  "orphan = \<lparr>a_id = 4, courseId = 99, atype = HW, title = ''Orphan'',
             dueAtUtc = \<lparr>msecs = 1726000000000, timeSpec = UTC, offsetFromUtc = 0\<rparr>,
             topics = None, a_notes = None\<rparr>"

definition first_a :: Assignment where
  "first_a = \<lparr>a_id = 3, courseId = 1, atype = Essay, title = ''Report'',
              dueAtUtc = \<lparr>msecs = 1726441200000, timeSpec = UTC, offsetFromUtc = 0\<rparr>,
              topics = None, a_notes = None\<rparr>"

section \<open>Verified properties\<close>

subsection \<open>The connection\<close>

lemma engine_db [simp]: "db (snd (engine c)) = db c"
  by (simp add: engine_def split: list.split)

lemma engine_saved [simp]: "saved (snd (engine c)) = saved c"
  by (simp add: engine_def split: list.split)

lemma engine_healthy: "healthy c \<Longrightarrow> fst (engine c) \<and> healthy (snd (engine c))"
  by (auto simp: engine_def healthy_def split: list.split)

lemma engine_cases:
  obtains c' where "engine c = (True, c')" "db c' = db c" "saved c' = saved c"
        | c' where "engine c = (False, c')" "db c' = db c" "saved c' = saved c"
proof (cases "engine c")
  case (Pair ok c')
  then have "db c' = db c" "saved c' = saved c"
    using engine_db [of c] engine_saved [of c] by simp_all
  with Pair that show ?thesis by (cases ok) auto
qed

lemma transaction_simps [simp]:
  "db (transaction c) = db c" "io (transaction c) = io c"
  "saved c = None \<Longrightarrow> saved (transaction c) = Some (db c)"
  by (simp_all add: transaction_def split: option.split)

lemma engine_transaction:
  "engine (transaction c) = (fst (engine c), transaction (snd (engine c)))"
  by (simp add: engine_def transaction_def split: list.split option.split)

lemma engine_healthy_eq:
  "healthy c \<Longrightarrow> \<exists>c'. engine c = (True, c') \<and> db c' = db c \<and> saved c' = saved c \<and> healthy c'"
  by (cases "io c") (auto simp: engine_def healthy_def)

lemma healthy_transaction [simp]: "healthy (transaction c) = healthy c"
  by (simp add: healthy_def)

lemma healthy_commit [simp]: "healthy (commit c) = healthy c"
  by (simp add: healthy_def commit_def)

subsection \<open>Login failures\<close>

text \<open>
  C3 (as amended).  A login with an existing user name and a wrong password, and a login
  with a user name that no row has, both end with a warning box titled
  \<open>Login failed\<close>, the dialog not accepted and its user id still \<open>-1\<close>; the text of the
  box differs: \<open>Incorrect password.\<close> against \<open>User not found.\<close>
\<close>

theorem login_failures_same_title_different_text:
  assumes "fst (engine c)"
      and "filter (\<lambda>u. username u = user) (users (db c)) = u # us"
      and "password_hash u \<noteq> hashPassword pass"
      and "ghost \<notin> set (map username (users (db c)))"
  shows "fst (onLogin hashPassword c user pass) =
           \<lparr>message = Some (Warning ''Login failed'' ''Incorrect password.''),
            accepted = False, ident = - 1\<rparr>
       \<and> fst (onLogin hashPassword c ghost pass') =
           \<lparr>message = Some (Warning ''Login failed'' ''User not found.''),
            accepted = False, ident = - 1\<rparr>"
proof -
  obtain ok c' where e: "engine c = (ok, c')" by (cases "engine c")
  with assms(1) have ok: "ok" by simp
  have dbc: "db c' = db c" using engine_db [of c] e by simp
  have none: "filter (\<lambda>u. username u = ghost) (users (db c)) = []"
    using assms(4) by (auto simp: filter_empty_conv)
  have a: "fst (onLogin hashPassword c user pass) =
           \<lparr>message = Some (Warning ''Login failed'' ''Incorrect password.''),
            accepted = False, ident = - 1\<rparr>"
    using assms(2,3) ok by (simp add: onLogin_def exec_select_user_def e dbc)
  have b: "fst (onLogin hashPassword c ghost pass') =
           \<lparr>message = Some (Warning ''Login failed'' ''User not found.''),
            accepted = False, ident = - 1\<rparr>"
    using ok none by (simp add: onLogin_def exec_select_user_def e dbc)
  from a b show ?thesis by simp
qed

theorem login_failures_witness:
  "fst (onLogin demo_digest login_store ''alice'' ''wrong'') =
     \<lparr>message = Some (Warning ''Login failed'' ''Incorrect password.''),
      accepted = False, ident = - 1\<rparr>
   \<and> fst (onLogin demo_digest login_store ''bob'' ''wrong'') =
     \<lparr>message = Some (Warning ''Login failed'' ''User not found.''),
      accepted = False, ident = - 1\<rparr>"
  using login_failures_same_title_different_text
    [of login_store "''alice''"
        "\<lparr>u_id = 1, username = ''alice'', password_hash = demo_digest ''secret'', created_at = 0\<rparr>"
        "[]" demo_digest "''wrong''" "''bob''" "''wrong''"]
  by (simp add: login_store_def runMigrations_def engine_def demo_digest_def)

text \<open>
  C3 as stated fails: for the store with the one user \<open>alice\<close>, a wrong password for
  \<open>alice\<close> and a login as the unknown \<open>bob\<close> show different messages.
\<close>

theorem login_message_tells_cause:
  "message (fst (onLogin demo_digest login_store ''alice'' ''wrong''))
     \<noteq> message (fst (onLogin demo_digest login_store ''bob'' ''wrong''))"
  by (simp add: onLogin_def exec_select_user_def login_store_def runMigrations_def
        engine_def demo_digest_def)

subsection \<open>Registration\<close>

text \<open>
  C5.  \<open>onRegister\<close> issues the \<open>INSERT\<close> alone, and the \<open>UNIQUE\<close> column rejects
  it: registering a name that a row already has ends with the warning
  \<open>Register failed\<close> / \<open>Username exists?\<close> and leaves the store as it was.  Hence, after
  a registration that succeeded, a second one under the same name fails, and the row of
  the first is the only row of that name, with the first password's digest.
\<close>

theorem register_existing_username_rejected:
  assumes "saved c = None"
  shows "(user \<in> set (map username (users (db c))) \<longrightarrow>
            fst (onRegister hashPassword now c user pass) =
              \<lparr>message = Some (Warning ''Register failed'' ''Username exists?''),
               accepted = False, ident = - 1\<rparr>
          \<and> db (snd (onRegister hashPassword now c user pass)) = db c)
       \<and> (message (fst (onRegister hashPassword now c user pass)) =
              Some (Information ''Registered'' ''User created. Please login.'') \<longrightarrow>
            fst (onRegister hashPassword now' (snd (onRegister hashPassword now c user pass))
                   user pass') =
              \<lparr>message = Some (Warning ''Register failed'' ''Username exists?''),
               accepted = False, ident = - 1\<rparr>
          \<and> db (snd (onRegister hashPassword now' (snd (onRegister hashPassword now c user pass))
                        user pass')) =
              db (snd (onRegister hashPassword now c user pass))
          \<and> filter (\<lambda>u. username u = user)
                (users (db (snd (onRegister hashPassword now c user pass)))) =
              [\<lparr>u_id = next_id (seq_users (db c)) (map u_id (users (db c))),
                username = user, password_hash = hashPassword pass, created_at = now\<rparr>])"
proof -
  have dup: "fst (onRegister hashPassword n k user p) =
              \<lparr>message = Some (Warning ''Register failed'' ''Username exists?''),
               accepted = False, ident = - 1\<rparr>
          \<and> db (snd (onRegister hashPassword n k user p)) = db k"
    if "saved k = None" "user \<in> set (map username (users (db k)))" for k n p
  proof (cases k rule: engine_cases)
    case (1 k')
    with that show ?thesis
      by (simp add: onRegister_def exec_insert_user_def engine_transaction rollback_def)
  next
    case (2 k')
    with that show ?thesis
      by (simp add: onRegister_def exec_insert_user_def engine_transaction rollback_def)
  qed
  have first: "user \<in> set (map username (users (db c))) \<longrightarrow>
            fst (onRegister hashPassword now c user pass) =
              \<lparr>message = Some (Warning ''Register failed'' ''Username exists?''),
               accepted = False, ident = - 1\<rparr>
          \<and> db (snd (onRegister hashPassword now c user pass)) = db c"
    using dup [OF assms] by blast
  have second: "fst (onRegister hashPassword now' (snd (onRegister hashPassword now c user pass))
                   user pass') =
              \<lparr>message = Some (Warning ''Register failed'' ''Username exists?''),
               accepted = False, ident = - 1\<rparr>
          \<and> db (snd (onRegister hashPassword now' (snd (onRegister hashPassword now c user pass))
                        user pass')) =
              db (snd (onRegister hashPassword now c user pass))
          \<and> filter (\<lambda>u. username u = user)
                (users (db (snd (onRegister hashPassword now c user pass)))) =
              [\<lparr>u_id = next_id (seq_users (db c)) (map u_id (users (db c))),
                username = user, password_hash = hashPassword pass, created_at = now\<rparr>]"
    if ok: "message (fst (onRegister hashPassword now c user pass)) =
              Some (Information ''Registered'' ''User created. Please login.'')"
  proof (cases c rule: engine_cases)
    case (1 c')
    from ok 1 have new: "user \<notin> set (map username (users (db c)))"
      by (auto simp: onRegister_def exec_insert_user_def engine_transaction split: if_splits)
    let ?c1 = "snd (onRegister hashPassword now c user pass)"
    from new 1 have s: "saved ?c1 = None"
      by (simp add: onRegister_def exec_insert_user_def engine_transaction commit_def)
    from new 1 have u: "users (db ?c1) = users (db c) @
              [\<lparr>u_id = next_id (seq_users (db c)) (map u_id (users (db c))),
                username = user, password_hash = hashPassword pass, created_at = now\<rparr>]"
      by (simp add: onRegister_def exec_insert_user_def engine_transaction commit_def)
    have f: "filter (\<lambda>u. username u = user) (users (db c)) = []"
      using new by (auto simp: filter_empty_conv)
    have "user \<in> set (map username (users (db ?c1)))" using u by simp
    from dup [OF s this] u f show ?thesis by simp
  next
    case (2 c')
    with ok show ?thesis
      by (simp add: onRegister_def exec_insert_user_def engine_transaction)
  qed
  from first second show ?thesis by blast
qed


theorem register_existing_username_witness:
  "saved login_store = None
   \<and> ''alice'' \<in> set (map username (users (db login_store)))
   \<and> fst (onRegister demo_digest 5 login_store ''alice'' ''other'') =
        \<lparr>message = Some (Warning ''Register failed'' ''Username exists?''),
         accepted = False, ident = - 1\<rparr>
   \<and> db (snd (onRegister demo_digest 5 login_store ''alice'' ''other'')) = db login_store
   \<and> saved fresh_conn = None
   \<and> message (fst (onRegister demo_digest 5 fresh_conn ''alice'' ''secret'')) =
        Some (Information ''Registered'' ''User created. Please login.'')
   \<and> fst (onRegister demo_digest 9 (snd (onRegister demo_digest 5 fresh_conn ''alice'' ''secret''))
            ''alice'' ''other'') =
        \<lparr>message = Some (Warning ''Register failed'' ''Username exists?''),
         accepted = False, ident = - 1\<rparr>
   \<and> users (db (snd (onRegister demo_digest 9
                        (snd (onRegister demo_digest 5 fresh_conn ''alice'' ''secret''))
                        ''alice'' ''other''))) =
        [\<lparr>u_id = 1, username = ''alice'', password_hash = demo_digest ''secret'',
          created_at = 5\<rparr>]"
  using register_existing_username_rejected
          [of login_store "''alice''" demo_digest 5 "''other''" 9 "''other''"]
        register_existing_username_rejected
          [of fresh_conn "''alice''" demo_digest 5 "''secret''" 9 "''other''"]
  by (simp add: login_store_def fresh_conn_def runMigrations_def onRegister_def
        exec_insert_user_def engine_def transaction_def commit_def rollback_def
        next_id_def demo_digest_def)


subsection \<open>Editing a course\<close>

text \<open>
  C8 as stated fails: saving the edit dialog for the course id 7, which no row has, is
  accepted without any message, and the store stays as it was.
\<close>

theorem update_unknown_course_reports_success:
  "fst (CourseDialog_onSave fresh_conn 1 1 7 ''CS101'' ''Intro'' ''#000000'') =
     \<lparr>message = None, accepted = True, ident = 7\<rparr>
   \<and> db (snd (CourseDialog_onSave fresh_conn 1 1 7 ''CS101'' ''Intro'' ''#000000'')) =
     db fresh_conn"
  by (simp add: CourseDialog_onSave_def exec_update_course_def fresh_conn_def
        runMigrations_def engine_def transaction_def commit_def)

lemma map_update_absent:
  "cid \<notin> set (map c_id rs) \<Longrightarrow> map (\<lambda>r. if c_id r = cid then f r else r) rs = rs"
  by (induction rs) auto

lemma CourseDialog_edit:
  assumes "0 \<le> cid" and "fst (engine c)"
  shows "fst (CourseDialog_onSave c uid sid cid cd nm col) =
           \<lparr>message = None, accepted = True, ident = cid\<rparr>"
    and "db (snd (CourseDialog_onSave c uid sid cid cd nm col)) =
           (db c)\<lparr>courses :=
              map (\<lambda>r. if c_id r = cid
                        then r\<lparr>c_code := cd, c_name := nm,
                              c_color_hex := (if col = [] then ''#4F46E5'' else col)\<rparr>
                        else r)
                (courses (db c))\<rparr>"
proof -
  obtain c' where e: "engine c = (True, c')" and d: "db c' = db c"
    using assms(2) by (cases c rule: engine_cases) auto
  show "fst (CourseDialog_onSave c uid sid cid cd nm col) =
           \<lparr>message = None, accepted = True, ident = cid\<rparr>"
    using assms(1) e
    by (simp add: CourseDialog_onSave_def exec_update_course_def engine_transaction)
  show "db (snd (CourseDialog_onSave c uid sid cid cd nm col)) =
           (db c)\<lparr>courses :=
              map (\<lambda>r. if c_id r = cid
                        then r\<lparr>c_code := cd, c_name := nm,
                              c_color_hex := (if col = [] then ''#4F46E5'' else col)\<rparr>
                        else r)
                (courses (db c))\<rparr>"
    using assms(1) e d
    by (simp add: CourseDialog_onSave_def exec_update_course_def engine_transaction commit_def)
qed

lemma CourseDialog_add:
  assumes "cid < 0" and "fst (engine c)"
  shows "courses (db (snd (CourseDialog_onSave c uid sid cid cd nm col))) =
           courses (db c) @
             [\<lparr>c_id = next_id (seq_courses (db c)) (map c_id (courses (db c))),
               c_user_id = uid, c_semester_id = sid, c_code = cd, c_name = nm,
               c_color_hex = (if col = [] then ''#4F46E5'' else col)\<rparr>]"
proof -
  obtain c' where e: "engine c = (True, c')" and d: "db c' = db c"
    using assms(2) by (cases c rule: engine_cases) auto
  show ?thesis
    using assms(1) e d
    by (simp add: CourseDialog_onSave_def exec_insert_course_def engine_transaction commit_def)
qed

text \<open>
  C8 (as amended).  When the engine carries the \<open>UPDATE\<close> out, saving the edit dialog
  is accepted; every course row with the id gets the code, the name and the colour of
  the dialog (the default colour for an empty colour field), every other row is kept;
  for an id that no course has, this changes nothing, and no failure is reported.
\<close>

theorem update_course_replaces_fields:
  assumes "0 \<le> cid" and "fst (engine c)"
  shows "fst (CourseDialog_onSave c uid sid cid cd nm col) =
           \<lparr>message = None, accepted = True, ident = cid\<rparr>
       \<and> db (snd (CourseDialog_onSave c uid sid cid cd nm col)) =
           (db c)\<lparr>courses :=
              map (\<lambda>r. if c_id r = cid
                        then r\<lparr>c_code := cd, c_name := nm,
                              c_color_hex := (if col = [] then ''#4F46E5'' else col)\<rparr>
                        else r)
                (courses (db c))\<rparr>
       \<and> (cid \<notin> set (map c_id (courses (db c))) \<longrightarrow>
            db (snd (CourseDialog_onSave c uid sid cid cd nm col)) = db c)"
  using CourseDialog_edit [OF assms, of uid sid cd nm col]
  by (simp add: map_update_absent)



theorem update_course_replaces_fields_witness:
  "0 \<le> (1::int) \<and> fst (engine course_store)
   \<and> fst (CourseDialog_onSave course_store 1 1 1 ''CS102'' ''Logic'' ''#00FF00'') =
        \<lparr>message = None, accepted = True, ident = 1\<rparr>
   \<and> courses (db (snd (CourseDialog_onSave course_store 1 1 1 ''CS102'' ''Logic'' ''#00FF00''))) =
        [\<lparr>c_id = 1, c_user_id = 1, c_semester_id = 1, c_code = ''CS102'',
          c_name = ''Logic'', c_color_hex = ''#00FF00''\<rparr>]
   \<and> 7 \<notin> set (map c_id (courses (db course_store)))
   \<and> db (snd (CourseDialog_onSave course_store 1 1 7 ''CS102'' ''Logic'' ''#00FF00'')) =
        db course_store"
  using update_course_replaces_fields
          [of 1 course_store 1 1 "''CS102''" "''Logic''" "''#00FF00''"]
        update_course_replaces_fields
          [of 7 course_store 1 1 "''CS102''" "''Logic''" "''#00FF00''"]
  by (simp add: course_store_def runMigrations_def engine_def)

lemma map_update_color:
  "\<forall>r \<in> set (map (\<lambda>r. if c_id r = cid
                          then r\<lparr>c_code := cd, c_name := nm, c_color_hex := col\<rparr> else r) rs).
      c_id r = cid \<longrightarrow> c_color_hex r = col"
  by (induction rs) simp_all

lemma map_update_present:
  "cid \<in> set (map c_id rs) \<Longrightarrow>
   \<exists>r \<in> set (map (\<lambda>r. if c_id r = cid
                          then r\<lparr>c_code := cd, c_name := nm, c_color_hex := col\<rparr> else r) rs).
      c_id r = cid \<and> c_color_hex r = col"
  by (induction rs) auto

text \<open>
  C10.  An edit saved with an empty colour field stores the colour \<open>#4F46E5\<close> in the
  course, whatever colour it had; it is the colour a course created with an empty
  colour field gets.
\<close>

theorem edit_with_empty_color_stores_default:
  assumes "0 \<le> cid" and "fst (engine c)"
  shows "(\<forall>r \<in> set (courses (db (snd (CourseDialog_onSave c uid sid cid cd nm [])))).
            c_id r = cid \<longrightarrow> c_color_hex r = ''#4F46E5'')
       \<and> (cid \<in> set (map c_id (courses (db c))) \<longrightarrow>
            (\<exists>r \<in> set (courses (db (snd (CourseDialog_onSave c uid sid cid cd nm [])))).
               c_id r = cid \<and> c_color_hex r = ''#4F46E5''))
       \<and> c_color_hex (last (courses (db (snd (CourseDialog_onSave c uid sid (- 1) cd nm []))))) =
            ''#4F46E5''"
proof -
  have after: "courses (db (snd (CourseDialog_onSave c uid sid cid cd nm []))) =
                 map (\<lambda>r. if c_id r = cid
                   then r\<lparr>c_code := cd, c_name := nm, c_color_hex := ''#4F46E5''\<rparr> else r)
                  (courses (db c))"
    using CourseDialog_edit(2) [OF assms, of uid sid cd nm "[]"] by simp
  have c: "c_color_hex (last (courses (db (snd (CourseDialog_onSave c uid sid (- 1) cd nm []))))) =
            ''#4F46E5''"
    using CourseDialog_add [of "- 1" c uid sid cd nm "[]"] assms(2) by simp
  show ?thesis
    unfolding after
    by (intro conjI impI map_update_color map_update_present c)
qed
theorem edit_with_empty_color_witness:
  "0 \<le> (1::int) \<and> fst (engine course_store)
   \<and> 1 \<in> set (map c_id (courses (db course_store)))
   \<and> map c_color_hex (courses (db course_store)) = [''#FF0000'']
   \<and> map c_color_hex
        (courses (db (snd (CourseDialog_onSave course_store 1 1 1 ''CS101'' ''Intro'' [])))) =
        [''#4F46E5'']"
  using edit_with_empty_color_stores_default [of 1 course_store 1 1 "''CS101''" "''Intro''"]
  by (simp add: course_store_def runMigrations_def engine_def CourseDialog_onSave_def
        exec_update_course_def transaction_def commit_def)

subsection \<open>Semester lookup-or-create\<close>

lemma distinct_key_filter:
  "distinct (map semester_key xs) \<Longrightarrow>
   filter (\<lambda>s. s_term s = trm \<and> s_year s = yr) xs = r # rs \<Longrightarrow> rs = []"
proof (induction xs arbitrary: r rs)
  case Nil
  then show ?case by simp
next
  case (Cons x xs)
  show ?case
  proof (cases "s_term x = trm \<and> s_year x = yr")
    case True
    with Cons.prems have "semester_key x \<notin> set (map semester_key xs)" by simp
    then have "filter (\<lambda>s. s_term s = trm \<and> s_year s = yr) xs = []"
      using True by (auto simp: filter_empty_conv semester_key_def image_iff)
    with Cons.prems True show ?thesis by simp
  next
    case False
    with Cons show ?thesis by simp
  qed
qed

lemma onOk_hit:
  assumes "healthy c" and "semester_rows (db c) trm yr = r # rs"
  shows "fst (onOk c trm yr) = \<lparr>message = None, accepted = True, ident = s_id r\<rparr>"
    and "db (snd (onOk c trm yr)) = db c"
    and "healthy (snd (onOk c trm yr))"
proof -
  from engine_healthy_eq [OF assms(1)] obtain c' where
    e: "engine c = (True, c')" "db c' = db c" "healthy c'" by blast
  from assms(2) have f: "filter (\<lambda>s. s_term s = trm \<and> s_year s = yr) (semesters (db c)) = r # rs"
    by (simp add: semester_rows_def)
  show "fst (onOk c trm yr) = \<lparr>message = None, accepted = True, ident = s_id r\<rparr>"
    by (simp add: onOk_def exec_select_semester_def e f)
  show "db (snd (onOk c trm yr)) = db c"
    by (simp add: onOk_def exec_select_semester_def e f)
  show "healthy (snd (onOk c trm yr))"
    by (simp add: onOk_def exec_select_semester_def e f)
qed

lemma onOk_miss:
  assumes "healthy c" and "semester_rows (db c) trm yr = []"
      and "trm = ''Fall'' \<or> trm = ''Spring''"
  shows "fst (onOk c trm yr) =
           \<lparr>message = None, accepted = True,
            ident = next_id (seq_semesters (db c)) (map s_id (semesters (db c)))\<rparr>"
    and "semesters (db (snd (onOk c trm yr))) =
           semesters (db c) @
             [\<lparr>s_id = next_id (seq_semesters (db c)) (map s_id (semesters (db c))),
               s_term = trm, s_year = yr\<rparr>]"
    and "healthy (snd (onOk c trm yr))"
proof -
  from engine_healthy_eq [OF assms(1)] obtain c1 where
    e1: "engine c = (True, c1)" "db c1 = db c" "healthy c1" by blast
  from engine_healthy_eq [OF e1(3)] obtain c2 where
    e2: "engine c1 = (True, c2)" "db c2 = db c1" "healthy c2" by blast
  from assms(2) have f: "filter (\<lambda>s. s_term s = trm \<and> s_year s = yr) (semesters (db c)) = []"
    by (simp add: semester_rows_def)
  have sel: "exec_select_semester c trm yr = (Some [], c1)"
    by (simp add: exec_select_semester_def e1 f)
  have ins: "exec_insert_semester (transaction c1) trm yr =
       (Some (next_id (seq_semesters (db c)) (map s_id (semesters (db c)))),
        (transaction c2)\<lparr>db := (db c)
            \<lparr>semesters := semesters (db c) @
               [\<lparr>s_id = next_id (seq_semesters (db c)) (map s_id (semesters (db c))),
                 s_term = trm, s_year = yr\<rparr>],
             seq_semesters := next_id (seq_semesters (db c)) (map s_id (semesters (db c)))\<rparr>\<rparr>)"
    using assms(3) by (simp add: exec_insert_semester_def engine_transaction e2 e1)
  show "fst (onOk c trm yr) =
           \<lparr>message = None, accepted = True,
            ident = next_id (seq_semesters (db c)) (map s_id (semesters (db c)))\<rparr>"
    by (simp add: onOk_def sel ins)
  show "semesters (db (snd (onOk c trm yr))) =
           semesters (db c) @
             [\<lparr>s_id = next_id (seq_semesters (db c)) (map s_id (semesters (db c))),
               s_term = trm, s_year = yr\<rparr>]"
    by (simp add: onOk_def sel ins commit_def)
  show "healthy (snd (onOk c trm yr))"
    using e2(3) by (simp add: onOk_def sel ins healthy_def commit_def)
qed


text \<open>
  C4 (as amended).  On a healthy connection, for a term \<open>Fall\<close> or \<open>Spring\<close> and a
  store in which no two semester rows share \<open>(term, year)\<close>: two calls of \<open>onOk\<close> give
  the same semester id; afterwards exactly one row has the key, and its id is the one
  returned; no two rows share a key after the first call, and the second call changes
  nothing.  The lookup before the insert keeps the key unique, not the table.
\<close>

theorem get_or_create_semester_twice:
  assumes "healthy c" and "trm = ''Fall'' \<or> trm = ''Spring''"
      and "distinct (map semester_key (semesters (db c)))"
  shows "ident (fst (onOk (snd (onOk c trm yr)) trm yr)) = ident (fst (onOk c trm yr))
       \<and> map s_id (semester_rows (db (snd (onOk (snd (onOk c trm yr)) trm yr))) trm yr) =
           [ident (fst (onOk c trm yr))]
       \<and> distinct (map semester_key (semesters (db (snd (onOk c trm yr)))))
       \<and> db (snd (onOk (snd (onOk c trm yr)) trm yr)) = db (snd (onOk c trm yr))"
proof -
  let ?c1 = "snd (onOk c trm yr)"
  have first: "healthy ?c1 \<and> distinct (map semester_key (semesters (db ?c1)))
      \<and> (\<exists>r. semester_rows (db ?c1) trm yr = [r] \<and> s_id r = ident (fst (onOk c trm yr)))"
  proof (cases "semester_rows (db c) trm yr")
    case Nil
    note m = onOk_miss [OF assms(1) Nil assms(2)]
    from Nil have "(trm, yr) \<notin> set (map semester_key (semesters (db c)))"
      by (auto simp: semester_rows_def filter_empty_conv semester_key_def)
    with assms(3) have "distinct (map semester_key (semesters (db ?c1)))"
      by (simp add: m(2) semester_key_def)
    moreover have "semester_rows (db ?c1) trm yr =
        [\<lparr>s_id = next_id (seq_semesters (db c)) (map s_id (semesters (db c))),
          s_term = trm, s_year = yr\<rparr>]"
      using Nil by (simp add: semester_rows_def m(2))
    ultimately show ?thesis using m(1,3) by simp
  next
    case (Cons r rs)
    note h = onOk_hit [OF assms(1) Cons]
    from Cons assms(3) have "rs = []"
      unfolding semester_rows_def by (rule distinct_key_filter [rotated])
    with Cons h assms(3) show ?thesis by simp
  qed
  then obtain r where r: "semester_rows (db ?c1) trm yr = [r]"
      "s_id r = ident (fst (onOk c trm yr))" by blast
  note h2 = onOk_hit [OF conjunct1 [OF first] r(1)]
  from h2 r first show ?thesis by simp
qed

theorem get_or_create_semester_twice_witness:
  "healthy fresh_conn \<and> distinct (map semester_key (semesters (db fresh_conn)))
   \<and> ident (fst (onOk fresh_conn ''Fall'' 2024)) = 1
   \<and> ident (fst (onOk (snd (onOk fresh_conn ''Fall'' 2024)) ''Fall'' 2024)) = 1
   \<and> semesters (db (snd (onOk (snd (onOk fresh_conn ''Fall'' 2024)) ''Fall'' 2024))) =
        [\<lparr>s_id = 1, s_term = ''Fall'', s_year = 2024\<rparr>]"
  using get_or_create_semester_twice [of fresh_conn "''Fall''" 2024]
  by (simp add: fresh_conn_def runMigrations_def healthy_def onOk_def
        exec_select_semester_def exec_insert_semester_def engine_def transaction_def
        commit_def next_id_def)

text \<open>
  C4 as stated fails.  The table takes a second row for a key it has: on the store with
  the semester \<open>(Fall, 2024)\<close> the \<open>INSERT\<close> of \<open>(Fall, 2024)\<close> succeeds with id 2.
  And \<open>onOk\<close> gets there: on a new store the first call creates the semester with
  id 1; in the second call the lookup statement fails, \<open>onOk\<close> takes that for a miss
  and inserts: the call returns id 2, and two rows have the key \<open>(Fall, 2024)\<close>.
\<close>

theorem get_or_create_semester_duplicates:
  "fst (exec_insert_semester course_store ''Fall'' 2024) = Some 2
   \<and> ident (fst (onOk flaky_conn ''Fall'' 2024)) = 1
   \<and> ident (fst (onOk (snd (onOk flaky_conn ''Fall'' 2024)) ''Fall'' 2024)) = 2
   \<and> semester_rows (db (snd (onOk (snd (onOk flaky_conn ''Fall'' 2024)) ''Fall'' 2024)))
        ''Fall'' 2024 =
        [\<lparr>s_id = 1, s_term = ''Fall'', s_year = 2024\<rparr>,
         \<lparr>s_id = 2, s_term = ''Fall'', s_year = 2024\<rparr>]"
  by (simp add: flaky_conn_def course_store_def runMigrations_def onOk_def semester_rows_def
        exec_select_semester_def exec_insert_semester_def engine_def transaction_def
        commit_def next_id_def)

subsection \<open>Deleting a course\<close>

text \<open>When both \<open>DELETE\<close> statements are carried out, the course and its assignments
  are gone, and nothing else changes.\<close>

lemma deleteCourse_cascade_when_executed:
  assumes "healthy c"
  shows "db (snd (deleteCourse c (Some cid) True)) =
           (db c)\<lparr>assignments := filter (\<lambda>r. r_course_id r \<noteq> cid) (assignments (db c)),
                   courses := filter (\<lambda>r. c_id r \<noteq> cid) (courses (db c))\<rparr>"
proof -
  from engine_healthy_eq [OF assms] obtain c1 where
    e1: "engine c = (True, c1)" "db c1 = db c" "healthy c1" by blast
  have "healthy (transaction c1\<lparr>db := db c
            \<lparr>assignments := filter (\<lambda>r. r_course_id r \<noteq> cid) (assignments (db c))\<rparr>\<rparr>)"
    using e1(3) by (simp add: healthy_def)
  from engine_healthy_eq [OF this] obtain c2 where
    e2: "engine (transaction c1\<lparr>db := db c
            \<lparr>assignments := filter (\<lambda>r. r_course_id r \<noteq> cid) (assignments (db c))\<rparr>\<rparr>)
          = (True, c2)"
        "db c2 = (db c)\<lparr>assignments := filter (\<lambda>r. r_course_id r \<noteq> cid) (assignments (db c))\<rparr>"
    by auto
  show ?thesis
    by (simp add: deleteCourse_def exec_delete_assignments_of_def exec_delete_course_def
          engine_transaction e1 e2 commit_def)
qed

text \<open>
  C2 fails on the code.  When the first \<open>DELETE\<close> fails and the second is carried
  out, \<open>deleteCourse\<close> commits all the same: the course is gone, its assignment is
  still stored, and no transaction is left open that could be rolled back.
\<close>

theorem deleteCourse_commits_partial_cascade:
  "courses (db cascade_conn) =
     [\<lparr>c_id = 1, c_user_id = 1, c_semester_id = 1, c_code = ''CS101'',
       c_name = ''Intro'', c_color_hex = ''#FF0000''\<rparr>]
   \<and> courses (db (snd (deleteCourse cascade_conn (Some 1) True))) = []
   \<and> assignments (db (snd (deleteCourse cascade_conn (Some 1) True))) =
     [\<lparr>r_id = 1, r_course_id = 1, r_type = ''HW'', r_title = ''Sheet 1'',
       r_due_at_utc = 1727776800, r_topics = None, r_notes = None\<rparr>]
   \<and> saved (snd (deleteCourse cascade_conn (Some 1) True)) = None"
  by (simp add: cascade_conn_def course_store_def runMigrations_def deleteCourse_def
        exec_delete_assignments_of_def exec_delete_course_def engine_def transaction_def
        commit_def)

subsection \<open>The due instant\<close>

lemma div_mult_self_iff: "(k::int) div n * n = k \<longleftrightarrow> k mod n = 0"
proof
  assume "k div n * n = k"
  with div_mult_mod_eq [of k n] show "k mod n = 0" by simp
next
  assume "k mod n = 0"
  with div_mult_mod_eq [of k n] show "k div n * n = k" by simp
qed

lemma cdiv_1000: "cdiv m 1000 * 1000 = m \<longleftrightarrow> m mod 1000 = 0"
proof (cases "0 \<le> m")
  case True
  then show ?thesis by (simp add: cdiv_def div_mult_self_iff)
next
  case False
  have "cdiv m 1000 * 1000 = m \<longleftrightarrow> (- m) div 1000 * 1000 = - m"
    using False by (auto simp: cdiv_def)
  also have "\<dots> \<longleftrightarrow> (- m) mod 1000 = 0" by (rule div_mult_self_iff)
  also have "\<dots> \<longleftrightarrow> m mod 1000 = 0" by (simp add: mod_eq_0_iff_dvd)
  finally show ?thesis .
qed

lemma AssignmentDialog_add:
  assumes "editId < 0" and "fst (engine c)"
  shows "assignments (db (snd (AssignmentDialog_onSave c course editId ty ti due tp nt))) =
           assignments (db c) @
             [\<lparr>r_id = next_id (seq_assignments (db c)) (map r_id (assignments (db c))),
               r_course_id = course, r_type = ty, r_title = ti,
               r_due_at_utc = toSecsSinceEpoch (toUTC due),
               r_topics = (if tp = [] then None else Some tp),
               r_notes = (if nt = [] then None else Some nt)\<rparr>]"
proof -
  obtain c' where e: "engine c = (True, c')" and d: "db c' = db c"
    using assms(2) by (cases c rule: engine_cases) auto
  show ?thesis
    using assms(1) e d
    by (simp add: AssignmentDialog_onSave_def exec_insert_assignment_def engine_transaction
          commit_def)
qed

text \<open>
  C7 (as amended).  The assignment created from the due instant \<open>due\<close> is stored with
  the whole seconds of \<open>due\<close>, truncated towards zero; reading the row back gives that
  instant in UTC, whatever the time zone of the reader and whatever the presentation of
  \<open>due\<close>; it is the instant \<open>due\<close> exactly when \<open>due\<close> is a whole number of seconds.
\<close>

theorem due_round_trip_whole_seconds:
  assumes "editId < 0" and "fst (engine c)"
  shows "r_due_at_utc (last (assignments
             (db (snd (AssignmentDialog_onSave c course editId ty ti due tp nt))))) =
           cdiv (msecs due) 1000
       \<and> dueAtUtc (readAssignment zone (last (assignments
             (db (snd (AssignmentDialog_onSave c course editId ty ti due tp nt)))))) =
           \<lparr>msecs = cdiv (msecs due) 1000 * 1000, timeSpec = UTC, offsetFromUtc = 0\<rparr>
       \<and> (msecs (dueAtUtc (readAssignment zone (last (assignments
             (db (snd (AssignmentDialog_onSave c course editId ty ti due tp nt))))))) =
            msecs due) = (msecs due mod 1000 = 0)"
  using AssignmentDialog_add [OF assms, of course ty ti due tp nt] cdiv_1000 [of "msecs due"]
  by (simp add: readAssignment_def toUTC_def fromSecsSinceEpoch_def toSecsSinceEpoch_def)

theorem due_round_trip_witness:
  "(- 1 :: int) < 0 \<and> fst (engine course_store)
   \<and> dueAtUtc (readAssignment zone_est (last (assignments
        (db (snd (AssignmentDialog_onSave course_store 1 (- 1) ''Essay'' ''Draft''
                    \<lparr>msecs = 1727776800000, timeSpec = LocalTime, offsetFromUtc = 3600\<rparr>
                    [] []))))))
       = \<lparr>msecs = 1727776800000, timeSpec = UTC, offsetFromUtc = 0\<rparr>"
  using due_round_trip_whole_seconds
          [of "- 1" course_store 1 "''Essay''" "''Draft''"
              "\<lparr>msecs = 1727776800000, timeSpec = LocalTime, offsetFromUtc = 3600\<rparr>"
              "[]" "[]" zone_est]
  by (simp add: course_store_def runMigrations_def engine_def cdiv_def)

text \<open>
  C7 as stated fails: a due instant half a second after a whole second is read back as
  the whole second.
\<close>

theorem due_round_trip_drops_milliseconds:
  "msecs (dueAtUtc (readAssignment zone_cet (last (assignments
        (db (snd (AssignmentDialog_onSave course_store 1 (- 1) ''Essay'' ''Draft''
                    \<lparr>msecs = 1727776800500, timeSpec = LocalTime, offsetFromUtc = 3600\<rparr>
                    [] [])))))))
     = 1727776800000"
  by (simp add: course_store_def runMigrations_def engine_def cdiv_def
        AssignmentDialog_onSave_def exec_insert_assignment_def transaction_def commit_def
        readAssignment_def toUTC_def fromSecsSinceEpoch_def toSecsSinceEpoch_def next_id_def)

subsection \<open>The heap algorithms\<close>

lemma push_loop_length [simp]:
  "length (std_push_heap_loop cmp xs h t v) = length xs"
  by (induction cmp xs h t v rule: std_push_heap_loop.induct)
     (subst std_push_heap_loop.simps, simp)

lemma mset_move_hole:
  assumes "h < length xs" and "p < length xs"
  shows "mset (xs[h := xs ! p, p := v]) = mset (xs[h := v])"
proof (cases "p = h")
  case True
  then show ?thesis by simp
next
  case False
  let ?ys = "xs[h := v]"
  have "mset (?ys[h := ?ys ! p, p := ?ys ! h]) = mset ?ys"
    using assms by (intro mset_swap) auto
  moreover have "?ys[h := ?ys ! p, p := ?ys ! h] = xs[h := xs ! p, p := v]"
    using assms False by simp
  ultimately show ?thesis by simp
qed

lemma push_loop_mset:
  "h < length xs \<Longrightarrow> mset (std_push_heap_loop cmp xs h 0 v) = mset (xs[h := v])"
proof (induction cmp xs h "0::nat" v rule: std_push_heap_loop.induct)
  case (1 cmp xs h v)
  let ?p = "(h - 1) div 2"
  show ?case
  proof (cases "h > 0 \<and> cmp (xs ! ?p) v")
    case True
    then have ph: "?p < h" by arith
    have "mset (std_push_heap_loop cmp xs h 0 v)
          = mset (std_push_heap_loop cmp (xs[h := xs ! ?p]) ?p 0 v)"
      using True by (subst std_push_heap_loop.simps) simp
    also have "\<dots> = mset (xs[h := xs ! ?p, ?p := v])"
      using 1 True ph by simp
    also have "\<dots> = mset (xs[h := v])"
      using ph "1.prems" by (intro mset_move_hole) auto
    finally show ?thesis .
  next
    case False
    then show ?thesis by (subst std_push_heap_loop.simps) auto
  qed
qed

lemma hole_up_step:
  assumes inv: "hole_up key xs h v" and h: "0 < h"
      and lt: "key v < key (xs ! ((h - 1) div 2))"
  shows "hole_up key (xs[h := xs ! ((h - 1) div 2)]) ((h - 1) div 2) v"
proof -
  let ?p = "(h - 1) div 2"
  let ?n = "length xs"
  from h have ph: "?p < h" by arith
  from inv have hn: "h < ?n"
    and a: "\<And>i. i < ?n \<Longrightarrow> 0 < i \<Longrightarrow> i \<noteq> h \<Longrightarrow>
              key (xs[h := v] ! ((i - 1) div 2)) \<le> key (xs[h := v] ! i)"
    and b: "\<And>i. i < ?n \<Longrightarrow> 0 < i \<Longrightarrow> (i - 1) div 2 = h \<Longrightarrow>
              key (xs ! ?p) \<le> key (xs ! i)"
    using h by (auto simp: hole_up_def)
  have a': "key (xs ! ((i - 1) div 2)) \<le> key (xs ! i)"
    if "i < ?n" "0 < i" "i \<noteq> h" "(i - 1) div 2 \<noteq> h" for i
    using a [OF that(1,2,3)] that hn by simp
  have "key (xs[h := xs ! ?p, ?p := v] ! ((i - 1) div 2))
          \<le> key (xs[h := xs ! ?p, ?p := v] ! i)"
    if i: "i < ?n" "0 < i" "i \<noteq> ?p" for i
  proof -
    consider "i = h" | "i \<noteq> h" "(i - 1) div 2 = ?p" | "i \<noteq> h" "(i - 1) div 2 = h"
      | "i \<noteq> h" "(i - 1) div 2 \<noteq> ?p" "(i - 1) div 2 \<noteq> h" by blast
    then show ?thesis
    proof cases
      case 1
      then show ?thesis using lt hn ph by simp
    next
      case 2
      then have "(i - 1) div 2 \<noteq> h" using ph by simp
      from a' [OF i(1,2) 2(1) this] 2 lt hn ph i show ?thesis by simp
    next
      case 3
      then have "i \<noteq> ?p" "h < i" using ph i by arith+
      with b [OF i(1,2) 3(2)] 3 hn ph i show ?thesis by simp
    next
      case 4
      from a' [OF i(1,2) 4(1) 4(3)] 4 hn ph i show ?thesis by simp
    qed
  qed
  moreover have "key (xs[h := xs ! ?p] ! ((?p - 1) div 2)) \<le> key (xs[h := xs ! ?p] ! i)"
    if i: "i < ?n" "0 < i" "(i - 1) div 2 = ?p" "0 < ?p" for i
  proof -
    have pp: "(?p - 1) div 2 < ?p" using i(4) by arith
    have pn: "?p < ?n" using ph hn by simp
    have "(?p - 1) div 2 \<noteq> h" using pp ph by simp
    from a' [OF pn i(4) _ this] ph
    have gp: "key (xs ! ((?p - 1) div 2)) \<le> key (xs ! ?p)" by simp
    show ?thesis
    proof (cases "i = h")
      case True
      with gp hn pp ph show ?thesis by simp
    next
      case False
      have "(i - 1) div 2 \<noteq> h" using i(3) ph by simp
      from a' [OF i(1,2) False this] i(3) gp False pp ph show ?thesis by simp
    qed
  qed
  ultimately show ?thesis
    using hn ph by (simp add: hole_up_def)
qed

lemma hole_up_done:
  assumes inv: "hole_up key xs h v"
      and stop: "h = 0 \<or> key (xs ! ((h - 1) div 2)) \<le> key v"
  shows "heap_upto key (xs[h := v])"
  unfolding heap_upto_def
proof (intro allI impI)
  fix i assume i: "i < length (xs[h := v])" "0 < i"
  show "key (xs[h := v] ! ((i - 1) div 2)) \<le> key (xs[h := v] ! i)"
  proof (cases "i = h")
    case True
    with i stop have "key (xs ! ((h - 1) div 2)) \<le> key v" by simp
    moreover have "(h - 1) div 2 \<noteq> h" using True i by arith
    ultimately show ?thesis using True i by simp
  next
    case False
    with inv i show ?thesis by (simp add: hole_up_def)
  qed
qed

lemma push_loop_heap:
  assumes "\<And>a b. cmp a b = (key b < key a)"
  shows "hole_up key xs h v \<Longrightarrow> heap_upto key (std_push_heap_loop cmp xs h 0 v)"
  using assms
proof (induction cmp xs h "0::nat" v rule: std_push_heap_loop.induct)
  case (1 cmp xs h v)
  let ?p = "(h - 1) div 2"
  show ?case
  proof (cases "h > 0 \<and> cmp (xs ! ?p) v")
    case True
    then have "hole_up key (xs[h := xs ! ?p]) ?p v"
      using hole_up_step [OF "1.prems"(1)] "1.prems"(2) by simp
    from "1.hyps" [OF True this "1.prems"(2)] True show ?thesis
      by (subst std_push_heap_loop.simps) simp
  next
    case False
    then have "h = 0 \<or> key (xs ! ?p) \<le> key v"
      using "1.prems"(2) by auto
    from hole_up_done [OF "1.prems"(1) this] False show ?thesis
      by (subst std_push_heap_loop.simps) auto
  qed
qed

lemma adjust_loop_length [simp]:
  "length (fst (std_adjust_heap_loop cmp xs h len)) = length xs"
  by (induction cmp xs h len rule: std_adjust_heap_loop.induct)
     (subst std_adjust_heap_loop.simps, simp)

lemma hole_down_step:
  assumes inv: "hole_down key xs h"
      and c: "c < length xs" "0 < c" "(c - 1) div 2 = h"
      and least: "\<And>i. i < length xs \<Longrightarrow> 0 < i \<Longrightarrow> (i - 1) div 2 = h \<Longrightarrow>
                    key (xs ! c) \<le> key (xs ! i)"
  shows "hole_down key (xs[h := xs ! c]) c"
proof -
  let ?n = "length xs"
  from c have hc: "h < c" by arith
  from inv have hn: "h < ?n"
    and a: "\<And>i. i < ?n \<Longrightarrow> 0 < i \<Longrightarrow> i \<noteq> h \<Longrightarrow> (i - 1) div 2 \<noteq> h \<Longrightarrow>
              key (xs ! ((i - 1) div 2)) \<le> key (xs ! i)"
    and b: "\<And>i. i < ?n \<Longrightarrow> 0 < i \<Longrightarrow> (i - 1) div 2 = h \<Longrightarrow> 0 < h \<Longrightarrow>
              key (xs ! ((h - 1) div 2)) \<le> key (xs ! i)"
    by (auto simp: hole_down_def)
  have "key (xs[h := xs ! c] ! ((i - 1) div 2)) \<le> key (xs[h := xs ! c] ! i)"
    if i: "i < ?n" "0 < i" "i \<noteq> c" "(i - 1) div 2 \<noteq> c" for i
  proof -
    consider "i = h" | "i \<noteq> h" "(i - 1) div 2 = h" | "i \<noteq> h" "(i - 1) div 2 \<noteq> h"
      by blast
    then show ?thesis
    proof cases
      case 1
      then have "(h - 1) div 2 \<noteq> h" using i by arith
      with b [OF c(1,2,3)] 1 i hn show ?thesis by simp
    next
      case 2
      with least [OF i(1,2)] hn i show ?thesis by simp
    next
      case 3
      with a [OF i(1,2)] hn i show ?thesis by simp
    qed
  qed
  moreover have "key (xs[h := xs ! c] ! ((c - 1) div 2)) \<le> key (xs[h := xs ! c] ! i)"
    if i: "i < ?n" "0 < i" "(i - 1) div 2 = c" for i
  proof -
    have "i \<noteq> h" "c \<noteq> h" using i hc by arith+
    with a [OF i(1,2)] i c hn show ?thesis by simp
  qed
  ultimately show ?thesis
    using c by (simp add: hole_down_def)
qed

lemma hole_down_leaf:
  assumes inv: "hole_down key xs h"
      and leaf: "\<And>i. i < length xs \<Longrightarrow> 0 < i \<Longrightarrow> (i - 1) div 2 \<noteq> h"
  shows "hole_up key xs h v"
proof -
  from inv have hn: "h < length xs"
    and a: "\<And>i. i < length xs \<Longrightarrow> 0 < i \<Longrightarrow> i \<noteq> h \<Longrightarrow> (i - 1) div 2 \<noteq> h \<Longrightarrow>
              key (xs ! ((i - 1) div 2)) \<le> key (xs ! i)"
    by (auto simp: hole_down_def)
  have "key (xs[h := v] ! ((i - 1) div 2)) \<le> key (xs[h := v] ! i)"
    if "i < length xs" "0 < i" "i \<noteq> h" for i
    using a [OF that leaf [OF that(1,2)]] leaf [OF that(1,2)] that by simp
  with hn leaf show ?thesis by (auto simp: hole_up_def)
qed

lemma adjust_loop_inv:
  assumes "\<And>a b. cmp a b = (key b < key a)"
  shows "hole_down key xs h \<Longrightarrow> len = length xs \<Longrightarrow>
         hole_down key (fst (std_adjust_heap_loop cmp xs h len))
                       (snd (std_adjust_heap_loop cmp xs h len))
         \<and> (len - 1) div 2 \<le> snd (std_adjust_heap_loop cmp xs h len)
         \<and> (\<forall>v. mset ((fst (std_adjust_heap_loop cmp xs h len))
                           [snd (std_adjust_heap_loop cmp xs h len) := v])
                  = mset (xs[h := v]))"
  using assms
proof (induction cmp xs h len rule: std_adjust_heap_loop.induct)
  case (1 cmp xs h len)
  let ?c = "2 * (h + 1)"
  note cmp = "1.prems"(3)
  show ?case
  proof (cases "h < (len - 1) div 2")
    case False
    then show ?thesis
      using "1.prems"(1) by (subst (1 2 3 4 5) std_adjust_heap_loop.simps) simp
  next
    case True
    then have cn: "?c < length xs" "?c - 1 < length xs" using "1.prems"(2) by arith+
    have kids: "i = ?c \<or> i = ?c - 1" if "0 < i" "(i - 1) div 2 = h" for i
      using that by arith
    from "1.prems"(1) have hn: "h < length xs" by (simp add: hole_down_def)
    show ?thesis
    proof (cases "cmp (xs ! ?c) (xs ! (?c - 1))")
      case left: True
      then have le: "key (xs ! (?c - 1)) \<le> key (xs ! ?c)" using cmp by simp
      have "hole_down key (xs[h := xs ! (?c - 1)]) (?c - 1)"
      proof (rule hole_down_step [OF "1.prems"(1) cn(2)])
        show "0 < ?c - 1" by simp
        show "(?c - 1 - 1) div 2 = h" by simp
        fix i assume "i < length xs" "0 < i" "(i - 1) div 2 = h"
        with kids [of i] le show "key (xs ! (?c - 1)) \<le> key (xs ! i)" by auto
      qed
      from "1.IH"(1) [OF True left this _ cmp] "1.prems"(2)
      have IH: "hole_down key (fst (std_adjust_heap_loop cmp (xs[h := xs ! (?c - 1)]) (?c - 1) len))
                       (snd (std_adjust_heap_loop cmp (xs[h := xs ! (?c - 1)]) (?c - 1) len))
         \<and> (len - 1) div 2 \<le> snd (std_adjust_heap_loop cmp (xs[h := xs ! (?c - 1)]) (?c - 1) len)
         \<and> (\<forall>v. mset ((fst (std_adjust_heap_loop cmp (xs[h := xs ! (?c - 1)]) (?c - 1) len))
                           [snd (std_adjust_heap_loop cmp (xs[h := xs ! (?c - 1)]) (?c - 1) len) := v])
                  = mset (xs[h := xs ! (?c - 1), ?c - 1 := v]))"
        by simp
      have unf: "std_adjust_heap_loop cmp xs h len =
                 std_adjust_heap_loop cmp (xs[h := xs ! (?c - 1)]) (?c - 1) len"
        using True left by (subst std_adjust_heap_loop.simps) simp
      have "mset (xs[h := xs ! (?c - 1), ?c - 1 := v]) = mset (xs[h := v])" for v
        using hn cn by (intro mset_move_hole) auto
      with IH show ?thesis unfolding unf by simp
    next
      case right: False
      then have le: "key (xs ! ?c) \<le> key (xs ! (?c - 1))" using cmp by simp
      have "hole_down key (xs[h := xs ! ?c]) ?c"
      proof (rule hole_down_step [OF "1.prems"(1) cn(1)])
        show "0 < ?c" by simp
        show "(?c - 1) div 2 = h" by simp
        fix i assume "i < length xs" "0 < i" "(i - 1) div 2 = h"
        with kids [of i] le show "key (xs ! ?c) \<le> key (xs ! i)" by auto
      qed
      from "1.IH"(2) [OF True right this _ cmp] "1.prems"(2)
      have IH: "hole_down key (fst (std_adjust_heap_loop cmp (xs[h := xs ! ?c]) ?c len))
                       (snd (std_adjust_heap_loop cmp (xs[h := xs ! ?c]) ?c len))
         \<and> (len - 1) div 2 \<le> snd (std_adjust_heap_loop cmp (xs[h := xs ! ?c]) ?c len)
         \<and> (\<forall>v. mset ((fst (std_adjust_heap_loop cmp (xs[h := xs ! ?c]) ?c len))
                           [snd (std_adjust_heap_loop cmp (xs[h := xs ! ?c]) ?c len) := v])
                  = mset (xs[h := xs ! ?c, ?c := v]))"
        by simp
      have unf: "std_adjust_heap_loop cmp xs h len =
                 std_adjust_heap_loop cmp (xs[h := xs ! ?c]) ?c len"
        using True right by (subst std_adjust_heap_loop.simps) simp
      have "mset (xs[h := xs ! ?c, ?c := v]) = mset (xs[h := v])" for v
        using hn cn by (intro mset_move_hole) auto
      with IH show ?thesis unfolding unf by simp
    qed
  qed
qed

lemma std_adjust_heap_unfold:
  "std_adjust_heap cmp xs h len v =
     (if len mod 2 = 0 \<and> 2 \<le> len \<and> snd (std_adjust_heap_loop cmp xs h len) = (len - 2) div 2
      then std_push_heap_loop cmp
             ((fst (std_adjust_heap_loop cmp xs h len))
                [snd (std_adjust_heap_loop cmp xs h len) :=
                   fst (std_adjust_heap_loop cmp xs h len)
                     ! (2 * (snd (std_adjust_heap_loop cmp xs h len) + 1) - 1)])
             (2 * (snd (std_adjust_heap_loop cmp xs h len) + 1) - 1) h v
      else std_push_heap_loop cmp (fst (std_adjust_heap_loop cmp xs h len))
             (snd (std_adjust_heap_loop cmp xs h len)) h v)"
  by (simp add: std_adjust_heap_def case_prod_beta)

lemma adjust_heap_correct:
  assumes cmp: "\<And>a b. cmp a b = (key b < key a)"
      and inv: "hole_down key xs 0"
  shows "heap_upto key (std_adjust_heap cmp xs 0 (length xs) v)"
    and "mset (std_adjust_heap cmp xs 0 (length xs) v) = mset (xs[0 := v])"
proof -
  let ?len = "length xs"
  let ?ys = "fst (std_adjust_heap_loop cmp xs 0 ?len)"
  let ?c = "snd (std_adjust_heap_loop cmp xs 0 ?len)"
  from adjust_loop_inv [of cmp key xs 0 ?len, OF cmp inv]
  have down: "hole_down key ?ys ?c" and c_low: "(?len - 1) div 2 \<le> ?c"
    and ms: "\<And>v. mset (?ys[?c := v]) = mset (xs[0 := v])" by auto
  have len: "length ?ys = ?len" by simp
  from down len have cn: "?c < ?len" by (simp add: hole_down_def)
  have "heap_upto key (std_adjust_heap cmp xs 0 ?len v)
        \<and> mset (std_adjust_heap cmp xs 0 ?len v) = mset (xs[0 := v])"
  proof (cases "?len mod 2 = 0 \<and> 2 \<le> ?len \<and> ?c = (?len - 2) div 2")
    case True
    let ?k = "2 * (?c + 1) - 1"
    from True have k: "?k = ?len - 1" "?k < ?len" by arith+
    have unf: "std_adjust_heap cmp xs 0 ?len v =
               std_push_heap_loop cmp (?ys[?c := ?ys ! ?k]) ?k 0 v"
      using True by (subst std_adjust_heap_unfold) simp
    have "hole_down key (?ys[?c := ?ys ! ?k]) ?k"
    proof (rule hole_down_step [OF down])
      show "?k < length ?ys" using k by simp
      show "0 < ?k" by simp
      show "(?k - 1) div 2 = ?c" by simp
      fix i assume "i < length ?ys" "0 < i" "(i - 1) div 2 = ?c"
      then have "i = ?k" using k by (simp; arith)
      then show "key (?ys ! ?k) \<le> key (?ys ! i)" by simp
    qed
    moreover have "(i - 1) div 2 \<noteq> ?k"
      if "i < length (?ys[?c := ?ys ! ?k])" "0 < i" for i
      using that k by (simp; arith)
    ultimately have up: "hole_up key (?ys[?c := ?ys ! ?k]) ?k v"
      by (rule hole_down_leaf)
    have "mset (std_push_heap_loop cmp (?ys[?c := ?ys ! ?k]) ?k 0 v)
            = mset (?ys[?c := ?ys ! ?k, ?k := v])"
      using k by (intro push_loop_mset) simp
    also have "\<dots> = mset (?ys[?c := v])"
      using cn k by (intro mset_move_hole) simp_all
    finally show ?thesis
      using push_loop_heap [of cmp key, OF cmp up] ms unf by simp
  next
    case False
    have unf: "std_adjust_heap cmp xs 0 ?len v = std_push_heap_loop cmp ?ys ?c 0 v"
      using False by (subst std_adjust_heap_unfold) auto
    have "(i - 1) div 2 \<noteq> ?c" if "i < length ?ys" "0 < i" for i
      using that c_low False cn by (simp; arith)
    with down have up: "hole_up key ?ys ?c v" by (rule hole_down_leaf)
    have "mset (std_push_heap_loop cmp ?ys ?c 0 v) = mset (?ys[?c := v])"
      using cn by (intro push_loop_mset) simp
    with push_loop_heap [of cmp key, OF cmp up] ms unf show ?thesis by simp
  qed
  then show "heap_upto key (std_adjust_heap cmp xs 0 (length xs) v)"
    and "mset (std_adjust_heap cmp xs 0 (length xs) v) = mset (xs[0 := v])" by simp_all
qed

lemma push_loop_take:
  "h < n \<Longrightarrow> take n (std_push_heap_loop cmp xs h t v) = std_push_heap_loop cmp (take n xs) h t v"
proof (induction cmp xs h t v rule: std_push_heap_loop.induct)
  case (1 cmp xs h t v)
  let ?p = "(h - 1) div 2"
  have p: "?p < n" using "1.prems" by arith
  show ?case
  proof (cases "h > t \<and> cmp (xs ! ?p) v")
    case True
    from "1.IH" [OF True p] True p "1.prems" show ?thesis
      by (subst (1 2) std_push_heap_loop.simps) (simp add: take_update_swap)
  next
    case False
    with p "1.prems" show ?thesis
      by (subst (1 2) std_push_heap_loop.simps) (auto simp: take_update_swap)
  qed
qed

lemma adjust_loop_take:
  "h < len \<Longrightarrow>
   std_adjust_heap_loop cmp (take len xs) h len =
     (take len (fst (std_adjust_heap_loop cmp xs h len)), snd (std_adjust_heap_loop cmp xs h len))
   \<and> snd (std_adjust_heap_loop cmp xs h len) < len"
proof (induction cmp xs h len rule: std_adjust_heap_loop.induct)
  case (1 cmp xs h len)
  let ?c = "2 * (h + 1)"
  show ?case
  proof (cases "h < (len - 1) div 2")
    case False
    with "1.prems" show ?thesis
      by (subst (1 2 3 4) std_adjust_heap_loop.simps) simp
  next
    case True
    then have cn: "?c < len" "?c - 1 < len" by arith+
    show ?thesis
    proof (cases "cmp (xs ! ?c) (xs ! (?c - 1))")
      case left: True
      from "1.IH"(1) [OF True left cn(2)] True left cn show ?thesis
        by (subst (1 2 3 4) std_adjust_heap_loop.simps) (simp add: take_update_swap)
    next
      case right: False
      from "1.IH"(2) [OF True right cn(1)] True right cn show ?thesis
        by (subst (1 2 3 4) std_adjust_heap_loop.simps) (simp add: take_update_swap)
    qed
  qed
qed

lemma adjust_heap_take:
  assumes "0 < len"
  shows "take len (std_adjust_heap cmp xs 0 len v) = std_adjust_heap cmp (take len xs) 0 len v"
proof -
  let ?r = "std_adjust_heap_loop cmp xs 0 len"
  from adjust_loop_take [OF assms, of cmp xs]
  have t: "std_adjust_heap_loop cmp (take len xs) 0 len = (take len (fst ?r), snd ?r)"
    and c: "snd ?r < len" by simp_all
  show ?thesis
  proof (cases "len mod 2 = 0 \<and> 2 \<le> len \<and> snd ?r = (len - 2) div 2")
    case True
    then have k: "2 * (snd ?r + 1) - 1 < len" by arith
    from True k c show ?thesis
      by (subst (1 2) std_adjust_heap_unfold) (simp add: t push_loop_take take_update_swap)
  next
    case False
    with c show ?thesis
      by (subst (1 2) std_adjust_heap_unfold) (auto simp: t push_loop_take)
  qed
qed

lemma adjust_heap_length [simp]:
  "length (std_adjust_heap cmp xs h len v) = length xs"
  by (subst std_adjust_heap_unfold) simp

lemma heap_top_least:
  assumes "heap_upto key xs"
  shows "i < length xs \<Longrightarrow> key (xs ! 0) \<le> key (xs ! i)"
proof (induction i rule: less_induct)
  case (less i)
  show ?case
  proof (cases "i = 0")
    case True
    then show ?thesis by simp
  next
    case False
    then have p: "(i - 1) div 2 < i" by arith
    with less.prems have "(i - 1) div 2 < length xs" by simp
    from less.IH [OF p this] assms less.prems False show ?thesis
      by (force simp: heap_upto_def)
  qed
qed

lemma pq_push_correct:
  assumes cmp: "\<And>a b. cmp a b = (key b < key a)" and heap: "heap_upto key xs"
  shows "heap_upto key (pq_push cmp xs x)"
    and "mset (pq_push cmp xs x) = add_mset x (mset xs)"
proof -
  let ?n = "length xs"
  have unf: "pq_push cmp xs x = std_push_heap_loop cmp (xs @ [x]) ?n 0 x"
    by (simp add: pq_push_def std_push_heap_def)
  have "key ((xs @ [x]) ! ((i - 1) div 2)) \<le> key ((xs @ [x]) ! i)"
    if "i < Suc ?n" "0 < i" "i \<noteq> ?n" for i
  proof -
    from that have i: "i < ?n" by simp
    then have "(i - 1) div 2 < ?n" by arith
    with heap i that(2) show ?thesis by (simp add: heap_upto_def nth_append)
  qed
  moreover have "(i - 1) div 2 \<noteq> ?n" if "i < Suc ?n" "0 < i" for i
    using that by arith
  ultimately have up: "hole_up key (xs @ [x]) ?n x"
    by (simp add: hole_up_def)
  from push_loop_heap [of cmp key, OF cmp up] show "heap_upto key (pq_push cmp xs x)"
    by (simp add: unf)
  have "mset (std_push_heap_loop cmp (xs @ [x]) ?n 0 x) = mset ((xs @ [x])[?n := x])"
    by (intro push_loop_mset) simp
  then show "mset (pq_push cmp xs x) = add_mset x (mset xs)"
    by (simp add: unf)
qed

lemma pq_pop_correct:
  assumes cmp: "\<And>a b. cmp a b = (key b < key a)" and heap: "heap_upto key xs"
      and ne: "xs \<noteq> []"
  shows "heap_upto key (pq_pop cmp xs)"
    and "add_mset (pq_top xs) (mset (pq_pop cmp xs)) = mset xs"
proof -
  let ?n = "length xs - 1"
  have "heap_upto key (pq_pop cmp xs) \<and> add_mset (pq_top xs) (mset (pq_pop cmp xs)) = mset xs"
  proof (cases "length xs > 1")
    case False
    with ne have "length xs = 1" by (cases xs) auto
    then obtain a where "xs = [a]" by (cases xs) auto
    then show ?thesis
      by (simp add: pq_pop_def std_pop_heap_def pq_top_def heap_upto_def)
  next
    case True
    let ?zs = "take ?n xs"
    have lz: "length ?zs = ?n" using True by simp
    have n0: "0 < ?n" using True by simp
    have "pq_pop cmp xs = take ?n (std_adjust_heap cmp (xs[?n := xs ! 0]) 0 ?n (xs ! ?n))"
      using True by (simp add: pq_pop_def std_pop_heap_def butlast_conv_take)
    also have "\<dots> = std_adjust_heap cmp ?zs 0 ?n (xs ! ?n)"
      using n0 by (simp add: adjust_heap_take)
    finally have unf: "pq_pop cmp xs = std_adjust_heap cmp ?zs 0 (length ?zs) (xs ! ?n)"
      using lz by simp
    have "key (?zs ! ((i - 1) div 2)) \<le> key (?zs ! i)" if "i < ?n" "0 < i" for i
    proof -
      from that have "(i - 1) div 2 < ?n" "i < length xs" by arith+
      with heap that show ?thesis by (simp add: heap_upto_def)
    qed
    then have down: "hole_down key ?zs 0"
      using n0 lz by (simp add: hole_down_def)
    note r = adjust_heap_correct [of cmp key ?zs "xs ! ?n", OF cmp down]
    have "take (Suc ?n) xs = ?zs @ [xs ! ?n]"
      using True by (intro take_Suc_conv_app_nth) simp
    moreover have "Suc ?n = length xs" using True by simp
    ultimately have xs: "xs = ?zs @ [xs ! ?n]" by simp
    have "mset (?zs[0 := xs ! ?n]) = add_mset (xs ! ?n) (mset ?zs - {#?zs ! 0#})"
      using n0 lz by (intro mset_update) simp
    moreover have "?zs ! 0 = xs ! 0" using n0 by simp
    moreover have "xs ! 0 \<in># mset ?zs"
      using n0 lz by (metis \<open>?zs ! 0 = xs ! 0\<close> nth_mem_mset)
    ultimately have "add_mset (xs ! 0) (mset (?zs[0 := xs ! ?n])) = add_mset (xs ! ?n) (mset ?zs)"
      by simp
    also have "\<dots> = mset xs" by (subst (3) xs) simp
    finally show ?thesis using r unf by (simp add: pq_top_def)
  qed
  then show "heap_upto key (pq_pop cmp xs)"
    and "add_mset (pq_top xs) (mset (pq_pop cmp xs)) = mset xs" by simp_all
qed

subsection \<open>The queue of the Upcoming list\<close>

lemma DueSooner_key: "DueSooner a b = (due_key b < due_key a)"
  by (simp add: DueSooner_def due_key_def)

lemma pq_top_in: "pq \<noteq> [] \<Longrightarrow> pq_top pq \<in> set pq"
  by (cases pq) (simp_all add: pq_top_def)

lemma pops_sorted:
  "heap_upto due_key pq \<Longrightarrow>
     sorted (map due_key (pops k pq)) \<and> mset (pops k pq) \<subseteq># mset pq"
proof (induction k arbitrary: pq)
  case 0
  then show ?case by simp
next
  case (Suc k)
  show ?case
  proof (cases "pq = []")
    case True
    then show ?thesis by simp
  next
    case False
    note p = pq_pop_correct [of DueSooner due_key pq, OF DueSooner_key Suc.prems False]
    from Suc.IH [OF p(1)]
    have s: "sorted (map due_key (pops k (pq_pop DueSooner pq)))"
      and m: "mset (pops k (pq_pop DueSooner pq)) \<subseteq># mset (pq_pop DueSooner pq)" by simp_all
    have "due_key (pq_top pq) \<le> due_key x" if "x \<in> set (pops k (pq_pop DueSooner pq))" for x
    proof -
      from that m have "x \<in># mset (pq_pop DueSooner pq)"
        by (meson mset_subset_eqD set_mset_mset in_multiset_in_set)
      then have "x \<in># mset pq" using p(2) by (metis insert_iff set_mset_add_mset_insert)
      then obtain i where "i < length pq" "pq ! i = x" by (auto simp: in_set_conv_nth)
      with heap_top_least [OF Suc.prems, of i] show ?thesis by (simp add: pq_top_def)
    qed
    moreover have "mset (pq_top pq # pops k (pq_pop DueSooner pq)) \<subseteq># mset pq"
      using m p(2) by (metis mset.simps(2) mset_subset_eq_add_mset_cancel)
    ultimately show ?thesis using s False by auto
  qed
qed

lemma pops_all:
  "heap_upto due_key pq \<Longrightarrow> length pq \<le> k \<Longrightarrow> mset (pops k pq) = mset pq"
proof (induction k arbitrary: pq)
  case 0
  then show ?case by simp
next
  case (Suc k)
  show ?case
  proof (cases "pq = []")
    case True
    then show ?thesis by simp
  next
    case False
    note p = pq_pop_correct [of DueSooner due_key pq, OF DueSooner_key Suc.prems(1) False]
    have "size (mset pq) = Suc (size (mset (pq_pop DueSooner pq)))"
      by (subst p(2) [symmetric]) simp
    then have "length (pq_pop DueSooner pq) \<le> k" using Suc.prems(2) by simp
    from Suc.IH [OF p(1) this] p(2) False show ?thesis by simp
  qed
qed

lemma pops_take: "take k (pops m pq) = pops (min k m) pq"
proof (induction m arbitrary: k pq)
  case 0
  then show ?case by simp
next
  case (Suc m)
  then show ?case by (cases k) simp_all
qed

lemma pops_keys:
  assumes "heap_upto due_key pq"
  shows "map due_key (pops k pq) = take k (sort (map due_key pq))"
proof -
  let ?m = "max k (length pq)"
  have "mset (map due_key (pops ?m pq)) = mset (map due_key pq)"
    using pops_all [OF assms, of ?m] by simp
  moreover have "sorted (map due_key (pops ?m pq))"
    using pops_sorted [OF assms] by simp
  ultimately have "sort (map due_key pq) = map due_key (pops ?m pq)"
    by (rule properties_for_sort)
  then have "take k (sort (map due_key pq)) = map due_key (take k (pops ?m pq))"
    by (simp add: take_map)
  also have "take k (pops ?m pq) = pops k pq"
    by (simp add: pops_take)
  finally show ?thesis by simp
qed

lemma build_queue:
  "heap_upto due_key q \<Longrightarrow>
     heap_upto due_key (fold (\<lambda>a pq. pq_push DueSooner pq a) as q)
     \<and> mset (fold (\<lambda>a pq. pq_push DueSooner pq a) as q) = mset as + mset q"
proof (induction as arbitrary: q)
  case Nil
  then show ?case by simp
next
  case (Cons a as)
  note p = pq_push_correct [of DueSooner due_key q a, OF DueSooner_key Cons.prems]
  from Cons.IH [OF p(1)] p(2) show ?case by simp
qed

lemma heap_upto_Nil [simp]: "heap_upto key []"
  by (simp add: heap_upto_def)

lemma show_upcoming_pops:
  "map fst (fst (show_upcoming c pq shown)) = pops (10 - shown) pq"
proof (induction c pq shown rule: show_upcoming.induct)
  case (1 c pq shown)
  show ?case
  proof (cases "pq \<noteq> [] \<and> shown < 10")
    case True
    then have "10 - shown = Suc (10 - (shown + 1))" by arith
    with "1.IH" [OF True] True show ?thesis
      by (subst show_upcoming.simps) simp
  next
    case False
    then show ?thesis
      by (subst show_upcoming.simps) (cases "10 - shown", auto)
  qed
qed

lemma pops_length: "length (pops k pq) \<le> k"
  by (induction k arbitrary: pq) auto

subsection \<open>The Upcoming list\<close>

lemma read_queue:
  "fold (\<lambda>row pq. pq_push DueSooner pq (f row)) rows q =
   fold (\<lambda>a pq. pq_push DueSooner pq a) (map f rows) q"
  by (simp add: fold_map comp_def)

lemma reloadUpcoming_unfold:
  "fst (reloadUpcoming zone c uid sid) =
     (if sid < 0 then []
      else rankUpcoming (snd (exec_select_upcoming c sid uid))
             (case fst (exec_select_upcoming c sid uid) of
                None \<Rightarrow> [] | Some rows \<Rightarrow> map (readAssignment zone) rows))"
proof (cases "exec_select_upcoming c sid uid")
  case (Pair r c1)
  show ?thesis
  proof (cases r)
    case None
    with Pair show ?thesis by (simp add: reloadUpcoming_def rankUpcoming_def)
  next
    case (Some rows)
    with Pair show ?thesis
      by (simp add: reloadUpcoming_def rankUpcoming_def
            read_queue [of "readAssignment zone" rows "[]"])
  qed
qed

lemma rankUpcoming_tops:
  "map fst (rankUpcoming c as) = pops 10 (fold (\<lambda>a pq. pq_push DueSooner pq a) as [])"
  by (simp add: rankUpcoming_def show_upcoming_pops)

lemma queue_heap:
  "heap_upto due_key (fold (\<lambda>a pq. pq_push DueSooner pq a) as [])"
  "mset (fold (\<lambda>a pq. pq_push DueSooner pq a) as []) = mset as"
  using build_queue [of "[]" as] by simp_all

lemma rankUpcoming_sorted:
  "length (rankUpcoming c as) \<le> 10"
  "sorted (map (due_key \<circ> fst) (rankUpcoming c as))"
  "set (map fst (rankUpcoming c as)) \<subseteq> set as"
  "map (due_key \<circ> fst) (rankUpcoming c as) = take 10 (sort (map due_key as))"
proof -
  let ?q = "fold (\<lambda>a pq. pq_push DueSooner pq a) as []"
  have "length (map fst (rankUpcoming c as)) \<le> 10"
    unfolding rankUpcoming_tops by (rule pops_length)
  then show "length (rankUpcoming c as) \<le> 10" by simp
  have m: "map (due_key \<circ> fst) (rankUpcoming c as) = map due_key (pops 10 ?q)"
    using rankUpcoming_tops [of c as] by (simp flip: map_map)
  show "sorted (map (due_key \<circ> fst) (rankUpcoming c as))"
    unfolding m using pops_sorted [OF queue_heap(1)] by simp
  have "mset (pops 10 ?q) \<subseteq># mset as"
    using pops_sorted [OF queue_heap(1) [of as], of 10] queue_heap(2) [of as] by simp
  then show "set (map fst (rankUpcoming c as)) \<subseteq> set as"
    unfolding rankUpcoming_tops by (metis set_mset_mono set_mset_mset)
  have "sort (map due_key ?q) = sort (map due_key as)"
    by (intro properties_for_sort) (simp_all add: queue_heap(2))
  then show "map (due_key \<circ> fst) (rankUpcoming c as) = take 10 (sort (map due_key as))"
    unfolding m using pops_keys [OF queue_heap(1) [of as], of 10] by simp
qed

text \<open>
  C1.  For every time zone, connection, user and semester, \<open>reloadUpcoming\<close> shows at
  most 10 items, and of two shown items the earlier one in the list is not due later:
  for positions \<open>i < j\<close> the due instant at \<open>i\<close> is at most the one at \<open>j\<close>.
\<close>

theorem upcoming_at_most_ten_ascending:
  "length (fst (reloadUpcoming zone c userId semesterId)) \<le> 10
   \<and> (\<forall>i j. i < j \<and> j < length (fst (reloadUpcoming zone c userId semesterId)) \<longrightarrow>
         msecs (dueAtUtc (fst (fst (reloadUpcoming zone c userId semesterId) ! i)))
           \<le> msecs (dueAtUtc (fst (fst (reloadUpcoming zone c userId semesterId) ! j))))"
proof (cases "semesterId < 0")
  case True
  then show ?thesis by (simp add: reloadUpcoming_unfold)
next
  case False
  let ?items = "fst (reloadUpcoming zone c userId semesterId)"
  from False obtain c' as where items: "?items = rankUpcoming c' as"
    by (simp add: reloadUpcoming_unfold)
  have "msecs (dueAtUtc (fst (?items ! i))) \<le> msecs (dueAtUtc (fst (?items ! j)))"
    if "i < j" "j < length ?items" for i j
  proof -
    from that have "map (due_key \<circ> fst) ?items ! i \<le> map (due_key \<circ> fst) ?items ! j"
      using rankUpcoming_sorted(2) [of c' as] unfolding items
      by (intro sorted_nth_mono) simp_all
    with that show ?thesis by (simp add: due_key_def)
  qed
  with rankUpcoming_sorted(1) [of c' as] items show ?thesis by simp
qed

lemma upcoming_store_items:
  "map (\<lambda>item. (a_id (fst item), snd item)) (fst (reloadUpcoming zone_cet upcoming_store 1 1)) =
     [(2, ''CS101''), (1, ''CS101''), (3, ''CS101'')]"
  by code_simp

theorem upcoming_at_most_ten_ascending_witness:
  "(0::nat) < 1 \<and> 1 < length (fst (reloadUpcoming zone_cet upcoming_store 1 1))
   \<and> msecs (dueAtUtc (fst (fst (reloadUpcoming zone_cet upcoming_store 1 1) ! 0)))
        \<le> msecs (dueAtUtc (fst (fst (reloadUpcoming zone_cet upcoming_store 1 1) ! 1)))"
proof -
  have "length (map (\<lambda>item. (a_id (fst item), snd item))
                 (fst (reloadUpcoming zone_cet upcoming_store 1 1))) = 3"
    unfolding upcoming_store_items by simp
  then have len: "1 < length (fst (reloadUpcoming zone_cet upcoming_store 1 1))" by simp
  with upcoming_at_most_ten_ascending [of zone_cet upcoming_store 1 1]
  show ?thesis by simp
qed

subsection \<open>The order of the input\<close>

lemma pops_Suc_eq:
  assumes "pq \<noteq> []" and "pops (Suc k) pq = pops (Suc k) pq'"
  shows "pq' \<noteq> []" "pq_top pq' = pq_top pq"
        "pops k (pq_pop DueSooner pq') = pops k (pq_pop DueSooner pq)"
proof -
  from assms show "pq' \<noteq> []" by (cases "pq' = []") simp_all
  with assms show "pq_top pq' = pq_top pq"
    "pops k (pq_pop DueSooner pq') = pops k (pq_pop DueSooner pq)" by simp_all
qed

lemma show_upcoming_same_tops:
  "pops (10 - shown) pq = pops (10 - shown) pq' \<Longrightarrow>
   show_upcoming c pq shown = show_upcoming c pq' shown"
proof (induction c pq shown arbitrary: pq' rule: show_upcoming.induct)
  case (1 c pq shown)
  show ?case
  proof (cases "pq \<noteq> [] \<and> shown < 10")
    case True
    then have k: "10 - shown = Suc (10 - (shown + 1))" by arith
    from True have ne: "pq \<noteq> []" by simp
    note e = pops_Suc_eq [OF ne "1.prems" [unfolded k]]
    from "1.IH" [OF True e(3) [symmetric]] True e(1,2) show ?thesis
      by (subst (1 2) show_upcoming.simps) simp
  next
    case False
    show ?thesis
    proof (cases "shown < 10")
      case True
      with False have "pq = []" by simp
      moreover from True obtain k where "10 - shown = Suc k" by (cases "10 - shown") auto
      ultimately have "pq' = []" using "1.prems" by (cases "pq' = []") simp_all
      with \<open>pq = []\<close> show ?thesis by simp
    next
      case False
      then show ?thesis by (subst (1 2) show_upcoming.simps) simp
    qed
  qed
qed

lemma due_key_fun: "(\<lambda>a. msecs (dueAtUtc a)) = due_key"
  "(\<lambda>item. msecs (dueAtUtc (fst item))) = due_key \<circ> fst"
  by (simp_all add: due_key_def fun_eq_iff)

text \<open>
  C6 (as amended).  When the query delivers the same assignments in another order, the
  shown items have the same due instants at the same positions; and when no two of the
  assignments are due at the same instant, the shown items are the same.
\<close>

theorem ranking_order_independent_but_for_ties:
  assumes "mset as = mset bs"
  shows "map (\<lambda>item. msecs (dueAtUtc (fst item))) (rankUpcoming c as) =
           map (\<lambda>item. msecs (dueAtUtc (fst item))) (rankUpcoming c bs)
       \<and> (distinct (map (\<lambda>a. msecs (dueAtUtc a)) as) \<longrightarrow>
             rankUpcoming c as = rankUpcoming c bs)"
proof -
  have "sort (map due_key as) = sort (map due_key bs)"
    using assms by (intro properties_for_sort) simp_all
  then have keys: "map (due_key \<circ> fst) (rankUpcoming c as) =
                   map (due_key \<circ> fst) (rankUpcoming c bs)"
    by (simp add: rankUpcoming_sorted(4))
  have "rankUpcoming c as = rankUpcoming c bs" if d: "distinct (map due_key as)"
  proof -
    from d have inj: "inj_on due_key (set as)" by (simp add: distinct_map)
    from assms have "set as = set bs" by (rule mset_eq_setD)
    with rankUpcoming_sorted(3) [of c as] rankUpcoming_sorted(3) [of c bs]
    have sub: "set (map fst (rankUpcoming c as)) \<union> set (map fst (rankUpcoming c bs)) \<subseteq> set as"
      by simp
    from keys have "map due_key (map fst (rankUpcoming c as)) =
                    map due_key (map fst (rankUpcoming c bs))" by simp
    then have "map fst (rankUpcoming c as) = map fst (rankUpcoming c bs)"
      using inj_on_map_eq_map [OF inj_on_subset [OF inj sub]] by blast
    then have "pops (10 - 0) (fold (\<lambda>a pq. pq_push DueSooner pq a) as []) =
               pops (10 - 0) (fold (\<lambda>a pq. pq_push DueSooner pq a) bs [])"
      by (simp add: rankUpcoming_tops)
    from show_upcoming_same_tops [OF this] show ?thesis
      by (simp add: rankUpcoming_def)
  qed
  with keys show ?thesis by (simp add: due_key_fun)
qed

theorem ranking_order_independent_witness:
  "mset [tie_a, first_a] = mset [first_a, tie_a]
   \<and> distinct (map (\<lambda>a. msecs (dueAtUtc a)) [tie_a, first_a])
   \<and> rankUpcoming upcoming_store [tie_a, first_a] = rankUpcoming upcoming_store [first_a, tie_a]"
proof -
  have m: "mset [tie_a, first_a] = mset [first_a, tie_a]" by (simp add: add_mset_commute)
  have d: "distinct (map (\<lambda>a. msecs (dueAtUtc a)) [tie_a, first_a])"
    by (simp add: tie_a_def first_a_def)
  from ranking_order_independent_but_for_ties [OF m, of upcoming_store] m d
  show ?thesis by blast
qed

text \<open>
  C6 as stated fails: two assignments due at the same instant are shown in the order in
  which the query delivers them, so the two orders of this input give two different
  lists.
\<close>

theorem ranking_depends_on_order_of_ties:
  "mset [tie_a, tie_b] = mset [tie_b, tie_a]
   \<and> map (a_id \<circ> fst) (rankUpcoming upcoming_store [tie_a, tie_b]) = [1, 2]
   \<and> map (a_id \<circ> fst) (rankUpcoming upcoming_store [tie_b, tie_a]) = [2, 1]
   \<and> rankUpcoming upcoming_store [tie_a, tie_b] \<noteq> rankUpcoming upcoming_store [tie_b, tie_a]"
proof -
  have m: "mset [tie_a, tie_b] = mset [tie_b, tie_a]" by (simp add: add_mset_commute)
  have ab: "map (a_id \<circ> fst) (rankUpcoming upcoming_store [tie_a, tie_b]) = [1, 2]"
    by code_simp
  have ba: "map (a_id \<circ> fst) (rankUpcoming upcoming_store [tie_b, tie_a]) = [2, 1]"
    by code_simp
  have "rankUpcoming upcoming_store [tie_a, tie_b] \<noteq> rankUpcoming upcoming_store [tie_b, tie_a]"
  proof
    assume "rankUpcoming upcoming_store [tie_a, tie_b] = rankUpcoming upcoming_store [tie_b, tie_a]"
    with ab ba have "[1, 2] = [2, 1 :: int]" by simp
    then show False by simp
  qed
  with m ab ba show ?thesis by simp
qed

subsection \<open>The course of a shown item\<close>

lemma exec_select_code_healthy:
  assumes "healthy c"
  shows "fst (exec_select_code c cid) =
           Some (map c_code (filter (\<lambda>r. c_id r = cid) (courses (db c))))"
    and "healthy (snd (exec_select_code c cid))"
    and "db (snd (exec_select_code c cid)) = db c"
proof -
  from engine_healthy_eq [OF assms] obtain c' where
    e: "engine c = (True, c')" "db c' = db c" "healthy c'" by blast
  then show "fst (exec_select_code c cid) =
           Some (map c_code (filter (\<lambda>r. c_id r = cid) (courses (db c))))"
    and "healthy (snd (exec_select_code c cid))"
    and "db (snd (exec_select_code c cid)) = db c"
    by (simp_all add: exec_select_code_def)
qed

lemma show_upcoming_codes:
  "healthy c \<Longrightarrow>
   \<forall>item \<in> set (fst (show_upcoming c pq shown)).
     snd item = value0_toString
       (Some (map c_code (filter (\<lambda>r. c_id r = courseId (fst item)) (courses (db c)))))"
proof (induction c pq shown rule: show_upcoming.induct)
  case (1 c pq shown)
  show ?case
  proof (cases "pq \<noteq> [] \<and> shown < 10")
    case True
    note h = exec_select_code_healthy [OF "1.prems", of "courseId (pq_top pq)"]
    from "1.IH" [OF True h(2)] h(1,3) True show ?thesis
      by (subst show_upcoming.simps) simp
  next
    case False
    then show ?thesis by (subst show_upcoming.simps) auto
  qed
qed

lemma exec_select_upcoming_healthy:
  assumes "healthy c"
  shows "fst (exec_select_upcoming c sid uid) =
           Some (sort_key r_due_at_utc
                   (concat (map (\<lambda>a. map (\<lambda>cr. a)
                                   (filter (\<lambda>cr. r_course_id a = c_id cr
                                               \<and> c_semester_id cr = sid \<and> c_user_id cr = uid)
                                      (courses (db c))))
                          (assignments (db c)))))"
    and "healthy (snd (exec_select_upcoming c sid uid))"
    and "db (snd (exec_select_upcoming c sid uid)) = db c"
proof -
  from engine_healthy_eq [OF assms] obtain c' where
    e: "engine c = (True, c')" "db c' = db c" "healthy c'" by blast
  then show "fst (exec_select_upcoming c sid uid) =
           Some (sort_key r_due_at_utc
                   (concat (map (\<lambda>a. map (\<lambda>cr. a)
                                   (filter (\<lambda>cr. r_course_id a = c_id cr
                                               \<and> c_semester_id cr = sid \<and> c_user_id cr = uid)
                                      (courses (db c))))
                          (assignments (db c)))))"
    and "healthy (snd (exec_select_upcoming c sid uid))"
    and "db (snd (exec_select_upcoming c sid uid)) = db c"
    by (simp_all add: exec_select_upcoming_def)
qed

text \<open>
  C9 (as amended).  On a healthy connection every shown item is built from a stored
  assignment whose course exists and belongs to the user and the semester of the window
  (the query joins the assignments with the courses), and the code shown is the code of
  the course with that id.  So an assignment whose course id belongs to no course is
  never shown, and nothing reports it.
\<close>

theorem upcoming_items_have_their_course:
  assumes "healthy c"
  shows "\<forall>item \<in> set (fst (reloadUpcoming zone c uid sid)).
           (\<exists>r \<in> set (assignments (db c)). fst item = readAssignment zone r)
         \<and> (\<exists>cr \<in> set (courses (db c)).
                c_id cr = courseId (fst item) \<and> c_semester_id cr = sid \<and> c_user_id cr = uid)
         \<and> (\<exists>cr rest. filter (\<lambda>r. c_id r = courseId (fst item)) (courses (db c)) = cr # rest
                \<and> snd item = c_code cr)"
proof
  fix item assume item: "item \<in> set (fst (reloadUpcoming zone c uid sid))"
  let ?c1 = "snd (exec_select_upcoming c sid uid)"
  let ?rows = "sort_key r_due_at_utc
                   (concat (map (\<lambda>a. map (\<lambda>cr. a)
                                   (filter (\<lambda>cr. r_course_id a = c_id cr
                                               \<and> c_semester_id cr = sid \<and> c_user_id cr = uid)
                                      (courses (db c))))
                          (assignments (db c))))"
  note q = exec_select_upcoming_healthy [OF assms, of sid uid]
  from item have nonneg: "\<not> sid < 0" by (auto simp: reloadUpcoming_unfold split: if_splits)
  then have items: "fst (reloadUpcoming zone c uid sid) =
                      rankUpcoming ?c1 (map (readAssignment zone) ?rows)"
    by (simp add: reloadUpcoming_unfold q(1))
  from item have "fst item \<in> fst ` set (rankUpcoming ?c1 (map (readAssignment zone) ?rows))"
    unfolding items by (rule imageI)
  then have "fst item \<in> set (map fst (rankUpcoming ?c1 (map (readAssignment zone) ?rows)))"
    by (simp only: set_map)
  with rankUpcoming_sorted(3) [of ?c1 "map (readAssignment zone) ?rows"]
  have "fst item \<in> set (map (readAssignment zone) ?rows)" by blast
  then have "fst item \<in> readAssignment zone ` set ?rows" by (simp only: set_map)
  then obtain r where r: "r \<in> set ?rows" "fst item = readAssignment zone r" by blast
  from r(1) obtain cr where cr: "r \<in> set (assignments (db c))" "cr \<in> set (courses (db c))"
      "r_course_id r = c_id cr" "c_semester_id cr = sid" "c_user_id cr = uid"
    by auto
  have cid: "courseId (fst item) = c_id cr"
    using r(2) cr(3) by (simp add: readAssignment_def)
  have "filter (\<lambda>x. c_id x = courseId (fst item)) (courses (db c)) \<noteq> []"
    using cr(2) cid by (auto simp: filter_empty_conv)
  then obtain cr' rest where
    f: "filter (\<lambda>x. c_id x = courseId (fst item)) (courses (db c)) = cr' # rest"
    by (cases "filter (\<lambda>x. c_id x = courseId (fst item)) (courses (db c))") auto
  from show_upcoming_codes [OF q(2), of "fold (\<lambda>a pq. pq_push DueSooner pq a)
        (map (readAssignment zone) ?rows) []" 0] item
  have "snd item = value0_toString
       (Some (map c_code (filter (\<lambda>r. c_id r = courseId (fst item)) (courses (db c)))))"
    unfolding items rankUpcoming_def q(3) by blast
  with f have "snd item = c_code cr'" by (simp add: value0_toString_def)
  with f r(2) cr cid
  show "(\<exists>r \<in> set (assignments (db c)). fst item = readAssignment zone r)
         \<and> (\<exists>cr \<in> set (courses (db c)).
                c_id cr = courseId (fst item) \<and> c_semester_id cr = sid \<and> c_user_id cr = uid)
         \<and> (\<exists>cr rest. filter (\<lambda>r. c_id r = courseId (fst item)) (courses (db c)) = cr # rest
                \<and> snd item = c_code cr)"
    by auto
qed

theorem upcoming_items_have_their_course_witness:
  "healthy upcoming_store
   \<and> fst (reloadUpcoming zone_cet upcoming_store 1 1) \<noteq> []
   \<and> courseId (fst (hd (fst (reloadUpcoming zone_cet upcoming_store 1 1)))) = 1
   \<and> snd (hd (fst (reloadUpcoming zone_cet upcoming_store 1 1))) = ''CS101''"
proof -
  have h: "healthy upcoming_store" by (simp add: healthy_def upcoming_store_def)
  have "map (\<lambda>item. (a_id (fst item), snd item))
          (fst (reloadUpcoming zone_cet upcoming_store 1 1)) \<noteq> []"
    unfolding upcoming_store_items by simp
  then have ne: "fst (reloadUpcoming zone_cet upcoming_store 1 1) \<noteq> []" by simp
  have "courseId (fst item) = 1 \<and> snd item = ''CS101''"
    if "item \<in> set (fst (reloadUpcoming zone_cet upcoming_store 1 1))" for item
    using upcoming_items_have_their_course [OF h, of zone_cet 1 1] that
    by (auto simp: upcoming_store_def runMigrations_def split: if_splits)
  from this [of "hd (fst (reloadUpcoming zone_cet upcoming_store 1 1))"] h ne
  show ?thesis by simp
qed

text \<open>
  C9 as stated fails.  The fourth assignment of \<open>upcoming_store\<close> refers to the course
  id 99, which no course has: \<open>reloadUpcoming\<close> shows the other three and leaves it
  out without any report; and the second loop, given a queue with that assignment,
  shows it with an empty code and reports nothing either.
\<close>

theorem orphan_left_out_or_shown_without_code:
  "r_course_id (assignments (db upcoming_store) ! 3) = 99
   \<and> 99 \<notin> set (map c_id (courses (db upcoming_store)))
   \<and> map (a_id \<circ> fst) (fst (reloadUpcoming zone_cet upcoming_store 1 1)) = [2, 1, 3]
   \<and> show_upcoming upcoming_store [orphan] 0 = ([(orphan, [])], upcoming_store)"
proof -
  have "map (a_id \<circ> fst) (fst (reloadUpcoming zone_cet upcoming_store 1 1)) = [2, 1, 3]"
    by code_simp
  moreover have "show_upcoming upcoming_store [orphan] 0 = ([(orphan, [])], upcoming_store)"
    by code_simp
  ultimately show ?thesis by (simp add: upcoming_store_def runMigrations_def)
qed

end
